theory Spec2Isabelle
  imports Main "HOL-Library.Word" "HOL-Library.Signed_Division" "HOL-Library.Monad_Syntax"
begin

unbundle bit_operations_syntax

section \<open>Memory: nodes, pointers and the heap\<close>

text \<open>
  The Go program links its nodes by pointers (\<^verbatim>\<open>*Node\<close>) and mutates them in place.
  A pointer is modelled as an optional address (\<open>None\<close> is \<^verbatim>\<open>nil\<close>), the heap as the
  list of all nodes allocated so far, the address of a node being its index.  Dereferencing
  \<^verbatim>\<open>nil\<close> panics in Go; every function that dereferences returns an option, \<open>None\<close>
  standing for the panic.  The field \<^verbatim>\<open>value\<close> is \<open>val\<close> and \<^verbatim>\<open>next\<close> is \<open>nxt\<close>
  here, both words being reserved in Isabelle.  A value of type \<^verbatim>\<open>interface{}\<close> is an
  optional \<open>'v\<close>, \<open>None\<close> being the \<^verbatim>\<open>nil\<close> interface.
\<close>

type_synonym addr = nat
type_synonym ptr = "addr option"

record 'v Node =
  key :: string
  val :: "'v option"
  prev :: ptr
  nxt :: ptr

type_synonym 'v heap = "'v Node list"

definition rd :: "'v heap \<Rightarrow> ptr \<Rightarrow> 'v Node option" where
  "rd h p = (case p of None \<Rightarrow> None
             | Some a \<Rightarrow> if a < length h then Some (h ! a) else None)"

definition wr :: "'v heap \<Rightarrow> ptr \<Rightarrow> ('v Node \<Rightarrow> 'v Node) \<Rightarrow> 'v heap option" where
  "wr h p f = (case p of None \<Rightarrow> None
               | Some a \<Rightarrow> if a < length h then Some (h[a := f (h ! a)]) else None)"

definition alloc :: "'v heap \<Rightarrow> 'v Node \<Rightarrow> 'v heap \<times> ptr" where
  "alloc h n = (h @ [n], Some (length h))"

definition emptyNode :: "'v Node" where
  "emptyNode = \<lparr>key = [], val = None, prev = None, nxt = None\<rparr>"

section \<open>Shards and the cache\<close>

text \<open>
  \<^verbatim>\<open>Shard.size\<close> is named \<open>ssize\<close>.  Go's \<^verbatim>\<open>int\<close> is taken as 64 bits wide and
  modelled by \<open>int\<close>: the only arithmetic on it is one truncating division at construction
  and the increments and decrements of \<^verbatim>\<open>size\<close>, which count allocated nodes and so stay
  far below \<open>2^63\<close>.  Running out of memory is not modelled.  The mutexes are left out:
  the model runs one operation at a time.
  The slice \<^verbatim>\<open>[]*Shard\<close> is a list of optional shards (\<open>None\<close> is a \<^verbatim>\<open>nil\<close> slot); every
  shard is referenced from exactly one slot, so the shard is stored in the slot itself.
\<close>

record Shard =
  capacity :: int
  ssize :: int
  cache :: "string \<rightharpoonup> ptr"
  head :: ptr
  tail :: ptr

record LRUCache =
  shards :: "Shard option list"
  shardMask :: "32 word"

type_synonym 'v state = "'v heap \<times> LRUCache"

definition nextPowerOf2 :: "32 word \<Rightarrow> 32 word" where
  "nextPowerOf2 n = (if n = 0 then 1 else n)"

definition newShard :: "'v heap \<Rightarrow> int \<Rightarrow> ('v heap \<times> Shard) option" where
  "newShard h cap =
     (let (h1, hp) = alloc h emptyNode;
          (h2, tp) = alloc h1 emptyNode;
          shard = \<lparr>capacity = cap, ssize = 0, cache = Map.empty, head = hp, tail = tp\<rparr>
      in do {
        h3 \<leftarrow> wr h2 (head shard) (\<lambda>m. m\<lparr>nxt := tail shard\<rparr>);
        h4 \<leftarrow> wr h3 (tail shard) (\<lambda>m. m\<lparr>prev := head shard\<rparr>);
        Some (h4, shard)
      })"

text \<open>FNV-1a, 32 bits, as \<^verbatim>\<open>hash/fnv\<close> computes it over the bytes of the key.\<close>

definition hash :: "string \<Rightarrow> 32 word" where
  "hash k = fold (\<lambda>b h. (h XOR of_char b) * 16777619) k 2166136261"

definition shardIndex :: "LRUCache \<Rightarrow> string \<Rightarrow> nat" where
  "shardIndex c k = unat (hash k AND shardMask c)"

text \<open>
  \<open>getShard\<close> is \<open>None\<close> when the index is out of range (Go panics) and \<open>Some None\<close> when
  the slot holds \<^verbatim>\<open>nil\<close>.
\<close>

definition getShard :: "LRUCache \<Rightarrow> string \<Rightarrow> Shard option option" where
  "getShard c k =
     (if shardIndex c k < length (shards c) then Some (shards c ! shardIndex c k) else None)"

function fillShards ::
  "'v heap \<Rightarrow> LRUCache \<Rightarrow> 32 word \<Rightarrow> 32 word \<Rightarrow> int \<Rightarrow> 'v state option" where
  "fillShards h c i numShards shardCapacity =
     (if i < numShards then
        (case newShard h shardCapacity of
           None \<Rightarrow> None
         | Some (h', s) \<Rightarrow>
             if unat i < length (shards c)
             then fillShards h' (c\<lparr>shards := (shards c)[unat i := Some s]\<rparr>) (i + 1)
                    numShards shardCapacity
             else None)
      else Some (h, c))"
  by pat_completeness auto
termination
proof (relation "measure (\<lambda>(h, c, i, n, cap). unat n - unat i)")
  show "wf (measure (\<lambda>(h :: 'v heap, c :: LRUCache, i :: 32 word, n :: 32 word, cap :: int).
                       unat n - unat i))"
    by simp
next
  fix h :: "'v heap" and c :: LRUCache and i numShards :: "32 word" and shardCapacity :: int
    and x2 :: "'v heap \<times> Shard" and x y
  assume "i < numShards"
  then have "unat i < unat numShards"
    by (simp add: word_less_nat_alt)
  moreover have "unat numShards < 2 ^ 32"
    using unsigned_less [of numShards] by simp
  ultimately have "unat (i + 1) = unat i + 1"
    by (simp add: unat_word_ariths)
  with \<open>unat i < unat numShards\<close>
  show "((x, c\<lparr>shards := (shards c)[unat i := Some y]\<rparr>, i + 1, numShards, shardCapacity),
         (h, c, i, numShards, shardCapacity))
        \<in> measure (\<lambda>(h, c, i, n, cap). unat n - unat i)"
    by simp
qed

declare fillShards.simps [simp del]

text \<open>
  \<open>NewLRUCache\<close> takes the heap it allocates in and \<open>ncpu\<close>, the result of
  \<^verbatim>\<open>runtime.NumCPU()\<close>.  The conversion \<^verbatim>\<open>uint32(...)\<close> keeps the low 32 bits;
  \<^verbatim>\<open>capacity / int(numShards)\<close> truncates towards zero (\<open>sdiv\<close>).
\<close>

definition NewLRUCache :: "'v heap \<Rightarrow> int \<Rightarrow> int \<Rightarrow> 'v state option" where
  "NewLRUCache h ncpu cap =
     (let numShards0 = nextPowerOf2 (word_of_int (ncpu * 4));
          numShards1 = (if numShards0 < 16 then 16 else numShards0);
          numShards = (if numShards1 < 1024 then 1024 else numShards1);
          shardCapacity0 = cap sdiv uint numShards;
          shardCapacity = (if shardCapacity0 < 1 then 1 else shardCapacity0);
          c = \<lparr>shards = replicate (unat numShards) None, shardMask = numShards - 1\<rparr>
      in fillShards h c 0 numShards shardCapacity)"

section \<open>The recency list\<close>

definition removeNode :: "'v heap \<Rightarrow> ptr \<Rightarrow> 'v heap option" where
  "removeNode h node = do {
     n \<leftarrow> rd h node;
     h1 \<leftarrow> wr h (prev n) (\<lambda>m. m\<lparr>nxt := nxt n\<rparr>);
     n1 \<leftarrow> rd h1 node;
     wr h1 (nxt n1) (\<lambda>m. m\<lparr>prev := prev n1\<rparr>)
   }"

definition addToFront :: "'v heap \<Rightarrow> Shard \<Rightarrow> ptr \<Rightarrow> 'v heap option" where
  "addToFront h s node = do {
     h1 \<leftarrow> wr h node (\<lambda>m. m\<lparr>prev := head s\<rparr>);
     hd1 \<leftarrow> rd h1 (head s);
     h2 \<leftarrow> wr h1 node (\<lambda>m. m\<lparr>nxt := nxt hd1\<rparr>);
     hd2 \<leftarrow> rd h2 (head s);
     h3 \<leftarrow> wr h2 (nxt hd2) (\<lambda>m. m\<lparr>prev := node\<rparr>);
     wr h3 (head s) (\<lambda>m. m\<lparr>nxt := node\<rparr>)
   }"

definition moveToFront :: "'v heap \<Rightarrow> Shard \<Rightarrow> ptr \<Rightarrow> 'v heap option" where
  "moveToFront h s node = do {
     h1 \<leftarrow> removeNode h node;
     addToFront h1 s node
   }"

section \<open>The operations\<close>

definition Get :: "'v state \<Rightarrow> string \<Rightarrow> ('v state \<times> 'v option \<times> bool) option" where
  "Get st k =
     (case st of (h, c) \<Rightarrow>
        (case getShard c k of
           None \<Rightarrow> None
         | Some None \<Rightarrow> None
         | Some (Some shard) \<Rightarrow>
             (case cache shard k of
                Some node \<Rightarrow> do {
                  h1 \<leftarrow> moveToFront h shard node;
                  n \<leftarrow> rd h1 node;
                  Some ((h1, c), val n, True)
                }
              | None \<Rightarrow> Some ((h, c), None, False))))"

text \<open>
  A new key: the node is allocated, entered in the table, linked at the front and counted.
  The source then tests \<^verbatim>\<open>shard.size > shard.capacity\<close> and returns in either case.
\<close>

definition Put :: "'v state \<Rightarrow> string \<Rightarrow> 'v option \<Rightarrow> 'v state option" where
  "Put st k v =
     (case st of (h, c) \<Rightarrow>
        (case getShard c k of
           None \<Rightarrow> None
         | Some None \<Rightarrow> None
         | Some (Some shard) \<Rightarrow>
             (case cache shard k of
                Some node \<Rightarrow> do {
                  h1 \<leftarrow> wr h node (\<lambda>m. m\<lparr>val := v\<rparr>);
                  h2 \<leftarrow> moveToFront h1 shard node;
                  Some (h2, c)
                }
              | None \<Rightarrow>
                  (let (h1, newNode) = alloc h \<lparr>key = k, val = v, prev = None, nxt = None\<rparr>;
                       shard1 = shard\<lparr>cache := (cache shard)(k \<mapsto> newNode)\<rparr>
                   in do {
                     h2 \<leftarrow> addToFront h1 shard1 newNode;
                     let shard2 = shard1\<lparr>ssize := ssize shard1 + 1\<rparr>;
                     let c' = c\<lparr>shards := (shards c)[shardIndex c k := Some shard2]\<rparr>;
                     if ssize shard2 > capacity shard2 then Some (h2, c') else Some (h2, c')
                   }))))"

fun clearShards :: "'v heap \<Rightarrow> Shard option list \<Rightarrow> ('v heap \<times> Shard option list) option" where
  "clearShards h [] = Some (h, [])"
| "clearShards h (p # ps) =
     (case p of
        None \<Rightarrow> None
      | Some shard \<Rightarrow> do {
          let shard1 = shard\<lparr>cache := Map.empty\<rparr>;
          h1 \<leftarrow> wr h (head shard1) (\<lambda>m. m\<lparr>nxt := tail shard1\<rparr>);
          h2 \<leftarrow> wr h1 (tail shard1) (\<lambda>m. m\<lparr>prev := head shard1\<rparr>);
          let shard2 = shard1\<lparr>ssize := 0\<rparr>;
          (h3, ps') \<leftarrow> clearShards h2 ps;
          Some (h3, Some shard2 # ps')
        })"

definition Clear :: "'v state \<Rightarrow> 'v state option" where
  "Clear st =
     (case st of (h, c) \<Rightarrow> do {
        (h', ss) \<leftarrow> clearShards h (shards c);
        Some (h', c\<lparr>shards := ss\<rparr>)
      })"

definition evictLRU :: "'v heap \<Rightarrow> Shard \<Rightarrow> ('v heap \<times> Shard) option" where
  "evictLRU h s = do {
     t \<leftarrow> rd h (tail s);
     let lru = prev t;
     if lru \<noteq> head s then do {
       h1 \<leftarrow> removeNode h lru;
       l \<leftarrow> rd h1 lru;
       let s1 = s\<lparr>cache := (cache s)(key l := None)\<rparr>;
       Some (h1, s1\<lparr>ssize := ssize s1 - 1\<rparr>)
     } else Some (h, s)
   }"

fun sumSizes :: "Shard option list \<Rightarrow> int \<Rightarrow> int option" where
  "sumSizes [] tot = Some tot"
| "sumSizes (p # ps) tot =
     (case p of None \<Rightarrow> None | Some shard \<Rightarrow> sumSizes ps (tot + ssize shard))"

definition Size :: "LRUCache \<Rightarrow> int option" where
  "Size c = sumSizes (shards c) 0"

text \<open>
  \<^verbatim>\<open>evictLRU\<close> is a method of \<^verbatim>\<open>Shard\<close> that no operation of the source calls.  So that
  the invariants below cover it as well, \<open>evictAt\<close> applies it to the shard in slot \<open>i\<close> of
  the cache and stores the shard back.
\<close>

definition evictAt :: "'v state \<Rightarrow> nat \<Rightarrow> 'v state option" where
  "evictAt st i =
     (case st of (h, c) \<Rightarrow>
        if i < length (shards c) then
          (case shards c ! i of
             None \<Rightarrow> None
           | Some shard \<Rightarrow> do {
               (h', shard') \<leftarrow> evictLRU h shard;
               Some (h', c\<lparr>shards := (shards c)[i := Some shard']\<rparr>)
             })
        else None)"

section \<open>Runs of the cache\<close>

text \<open>
  One operation at a time on the state made of the heap and the cache.  A state is
  reachable when it is the result of \<open>NewLRUCache\<close> followed by any number of operations.
\<close>

datatype 'v op = OpGet string | OpPut string "'v option" | OpClear | OpEvictLRU nat

fun step :: "'v state \<Rightarrow> 'v op \<Rightarrow> 'v state option" where
  "step st (OpGet k) = map_option fst (Get st k)"
| "step st (OpPut k v) = Put st k v"
| "step st OpClear = Clear st"
| "step st (OpEvictLRU i) = evictAt st i"

fun run :: "'v state \<Rightarrow> 'v op list \<Rightarrow> 'v state option" where
  "run st [] = Some st"
| "run st (x # xs) = (case step st x of None \<Rightarrow> None | Some st' \<Rightarrow> run st' xs)"

inductive reachable :: "'v state \<Rightarrow> bool" where
  new: "NewLRUCache h ncpu cap = Some st \<Longrightarrow> reachable st"
| step: "reachable st \<Longrightarrow> step st x = Some st' \<Longrightarrow> reachable st'"

section \<open>Reading the recency list\<close>

text \<open>
  \<open>walk\<close> follows the \<^verbatim>\<open>next\<close> pointers from \<open>p\<close> until it meets \<open>t\<close>, and gives
  up after \<open>n\<close> steps; \<open>nodes\<close> are the real nodes between the two sentinels of a shard,
  most recently used first (a list without cycle has fewer nodes than the heap has
  cells, which is the fuel).  \<open>entries\<close> are their keys and values, and \<open>view\<close> the entries
  of every shard of the cache.  \<open>layout\<close> is what never changes after construction.
\<close>

fun walk :: "'v heap \<Rightarrow> nat \<Rightarrow> ptr \<Rightarrow> ptr \<Rightarrow> addr list option" where
  "walk h 0 p t = None"
| "walk h (Suc n) p t =
     (if p = t then Some []
      else case p of None \<Rightarrow> None
           | Some a \<Rightarrow> if a < length h then map_option ((#) a) (walk h n (nxt (h ! a)) t)
                       else None)"

definition nodes :: "'v heap \<Rightarrow> Shard \<Rightarrow> addr list option" where
  "nodes h s = do { hn \<leftarrow> rd h (head s); walk h (length h) (nxt hn) (tail s) }"

definition entries :: "'v heap \<Rightarrow> Shard \<Rightarrow> (string \<times> 'v option) list option" where
  "entries h s = map_option (map (\<lambda>a. (key (h ! a), val (h ! a)))) (nodes h s)"

definition view :: "'v state \<Rightarrow> (string \<times> 'v option) list option list" where
  "view st = (case st of (h, c) \<Rightarrow>
     map (\<lambda>p. case p of None \<Rightarrow> None | Some s \<Rightarrow> entries h s) (shards c))"

definition layout :: "LRUCache \<Rightarrow> 32 word \<times> (int \<times> ptr \<times> ptr) option list" where
  "layout c = (shardMask c, map (map_option (\<lambda>s. (capacity s, head s, tail s))) (shards c))"

section \<open>Invariants\<close>

text \<open>
  \<open>linked h L\<close>: each address of \<open>L\<close> points to the following one by \<^verbatim>\<open>next\<close>, and that
  one points back by \<^verbatim>\<open>prev\<close>.  \<open>dll h s as\<close>: the list of the shard \<open>s\<close> is its head
  sentinel, the nodes \<open>as\<close>, and its tail sentinel, all different and allocated.
  \<open>table_ok\<close>: the lookup table maps exactly the keys of these nodes, each to its node.
  \<open>fp\<close> is the set of addresses a shard owns.
\<close>

fun linked :: "'v heap \<Rightarrow> addr list \<Rightarrow> bool" where
  "linked h (x # y # zs) \<longleftrightarrow> nxt (h ! x) = Some y \<and> prev (h ! y) = Some x \<and> linked h (y # zs)"
| "linked h [x] \<longleftrightarrow> True"
| "linked h [] \<longleftrightarrow> True"

definition dll :: "'v heap \<Rightarrow> Shard \<Rightarrow> addr list \<Rightarrow> bool" where
  "dll h s as \<longleftrightarrow>
     (case head s of None \<Rightarrow> False
      | Some hp \<Rightarrow>
          (case tail s of None \<Rightarrow> False
           | Some tp \<Rightarrow> distinct (hp # as @ [tp]) \<and> (\<forall>a\<in>set (hp # as @ [tp]). a < length h)
                         \<and> linked h (hp # as @ [tp])))"

definition table_ok :: "'v heap \<Rightarrow> Shard \<Rightarrow> addr list \<Rightarrow> bool" where
  "table_ok h s as \<longleftrightarrow>
     dom (cache s) = (\<lambda>a. key (h ! a)) ` set as \<and>
     (\<forall>a\<in>set as. cache s (key (h ! a)) = Some (Some a))"

definition shard_inv :: "'v heap \<Rightarrow> Shard \<Rightarrow> addr list \<Rightarrow> bool" where
  "shard_inv h s as \<longleftrightarrow> dll h s as \<and> table_ok h s as \<and> ssize s = int (length as)"

definition fp :: "Shard \<Rightarrow> addr list \<Rightarrow> addr set" where
  "fp s as = set_option (head s) \<union> set_option (tail s) \<union> set as"

text \<open>
  The invariant of the whole cache: the mask selects an existing slot, every slot holds a
  shard whose list, table and size agree, and no two shards share a node.
\<close>

definition shard_ok :: "'v heap \<Rightarrow> Shard \<Rightarrow> bool" where
  "shard_ok h s \<longleftrightarrow> (case nodes h s of None \<Rightarrow> False | Some as \<Rightarrow> shard_inv h s as)"

definition footprint :: "'v heap \<Rightarrow> Shard option \<Rightarrow> addr set" where
  "footprint h p =
     (case p of None \<Rightarrow> {}
      | Some s \<Rightarrow> (case nodes h s of None \<Rightarrow> {} | Some as \<Rightarrow> fp s as))"

definition cache_inv :: "'v state \<Rightarrow> bool" where
  "cache_inv st \<longleftrightarrow>
     (case st of (h, c) \<Rightarrow>
        unat (shardMask c) < length (shards c) \<and>
        (\<forall>i<length (shards c).
           case shards c ! i of None \<Rightarrow> False | Some s \<Rightarrow> shard_ok h s) \<and>
        (\<forall>i<length (shards c). \<forall>j<length (shards c).
           i \<noteq> j \<longrightarrow> footprint h (shards c ! i) \<inter> footprint h (shards c ! j) = {}))"

text \<open>
  The size field, the number of entries of the lookup table and the number of real nodes
  of the recency list agree in every shard.
\<close>

definition sizes_agree :: "'v state \<Rightarrow> bool" where
  "sizes_agree st \<longleftrightarrow>
     (case st of (h, c) \<Rightarrow>
        \<forall>p\<in>set (shards c).
          case p of None \<Rightarrow> False
          | Some s \<Rightarrow>
              (case nodes h s of None \<Rightarrow> False
               | Some as \<Rightarrow> ssize s = int (card (dom (cache s))) \<and> ssize s = int (length as)))"

section \<open>The shard count in the words of the specification\<close>

text \<open>
  Not from the source: the specification describes the shard count as
  \<open>max(16, nextPowerOfTwo(4 \<times> available parallelism))\<close>.  \<open>spec_nextPowerOfTwo n\<close> is the
  least power of two that is at least \<open>n\<close>, found by doubling from 1.  These definitions
  are only compared with what \<open>NewLRUCache\<close> computes.
\<close>

fun spec_nextPowerOfTwo_from :: "nat \<Rightarrow> nat \<Rightarrow> nat \<Rightarrow> nat" where
  "spec_nextPowerOfTwo_from 0 p n = p"
| "spec_nextPowerOfTwo_from (Suc fuel) p n =
     (if n \<le> p then p else spec_nextPowerOfTwo_from fuel (2 * p) n)"

definition spec_nextPowerOfTwo :: "nat \<Rightarrow> nat" where
  "spec_nextPowerOfTwo n = spec_nextPowerOfTwo_from n 1 n"

definition spec_shardCount :: "int \<Rightarrow> nat" where
  "spec_shardCount ncpu = max 16 (spec_nextPowerOfTwo (nat (4 * ncpu)))"

section \<open>Lists in the heap\<close>

lemma linked_append:
  "linked h (xs @ y # z # zs) \<longleftrightarrow> linked h (xs @ [y]) \<and> linked h (y # z # zs)"
  by (induction h xs rule: linked.induct) auto

lemma nth_upd:
  "(xs[i := v]) ! j = (if i = j \<and> i < length xs then v else xs ! j)"
  by (cases "i < length xs") (auto simp: nth_list_update list_update_beyond)

lemma linked_cong:
  "\<forall>x\<in>set (butlast L). nxt (h' ! x) = nxt (h ! x) \<Longrightarrow>
   \<forall>y\<in>set (tl L). prev (h' ! y) = prev (h ! y) \<Longrightarrow> linked h' L = linked h L"
  by (induction h L rule: linked.induct) auto

lemma distinct_bounded_length:
  assumes "distinct xs" and "\<forall>x\<in>set xs. x < (n::nat)"
  shows "length xs \<le> n"
proof -
  have "card (set xs) \<le> card {..<n}"
    using assms(2) by (intro card_mono) auto
  with assms(1) show ?thesis
    by (simp add: distinct_card)
qed

lemma walk_linked:
  "linked h (p # as @ [t]) \<Longrightarrow> t \<notin> set as \<Longrightarrow> \<forall>a\<in>set as. a < length h \<Longrightarrow>
   length as < n \<Longrightarrow> walk h n (nxt (h ! p)) (Some t) = Some as"
proof (induction as arbitrary: p n)
  case Nil
  then show ?case by (cases n) auto
next
  case (Cons a as)
  then obtain m where "n = Suc m" by (cases n) auto
  with Cons show ?case by auto
qed

lemma linked_upd_other [simp]:
  "x \<notin> set L \<Longrightarrow> linked (h[x := v]) L = linked h L"
proof (rule linked_cong)
  assume "x \<notin> set L"
  then have "x \<notin> set (butlast L)" "x \<notin> set (tl L)"
    by (cases L; auto dest: in_set_butlastD)+
  then show "\<forall>y\<in>set (butlast L). nxt (h[x := v] ! y) = nxt (h ! y)"
    and "\<forall>y\<in>set (tl L). prev (h[x := v] ! y) = prev (h ! y)"
    by (auto simp: nth_upd)
qed

lemma linked_upd_nxt:
  "x \<notin> set (butlast L) \<Longrightarrow> prev v = prev (h ! x) \<Longrightarrow> linked (h[x := v]) L = linked h L"
  by (rule linked_cong) (auto simp: nth_upd)

lemma linked_upd_prev:
  "x \<notin> set (tl L) \<Longrightarrow> nxt v = nxt (h ! x) \<Longrightarrow> linked (h[x := v]) L = linked h L"
  by (rule linked_cong) (auto simp: nth_upd)

subsection \<open>Unlinking and linking one node\<close>

lemma removeNode_effect:
  assumes "distinct (X @ p # a # n # Y)"
    and "\<forall>x\<in>set (X @ p # a # n # Y). x < length h"
    and "linked h (X @ p # a # n # Y)"
  shows "removeNode h (Some a) =
           Some (h[p := (h ! p)\<lparr>nxt := Some n\<rparr>, n := (h ! n)\<lparr>prev := Some p\<rparr>])"
proof -
  from assms(3) have "linked h (p # a # n # Y)"
    by (simp add: linked_append)
  then have "nxt (h ! a) = Some n" "prev (h ! a) = Some p"
    by simp_all
  moreover from assms(1) have "p \<noteq> a" "p \<noteq> n" "a \<noteq> n"
    by auto
  moreover from assms(2) have "p < length h" "a < length h" "n < length h"
    by auto
  ultimately show ?thesis
    by (simp add: removeNode_def rd_def wr_def)
qed

lemma removeNode_linked:
  assumes "distinct (X @ p # a # n # Y)"
    and "p < length h" and "n < length h"
    and "linked h (X @ p # a # n # Y)"
  shows "linked (h[p := (h ! p)\<lparr>nxt := Some n\<rparr>, n := (h ! n)\<lparr>prev := Some p\<rparr>])
           (X @ p # n # Y)"
proof -
  let ?h1 = "h[p := (h ! p)\<lparr>nxt := Some n\<rparr>]"
  let ?h2 = "?h1[n := (h ! n)\<lparr>prev := Some p\<rparr>]"
  from assms(4) have l1: "linked h (X @ [p])" and l2: "linked h (p # a # n # Y)"
    by (simp_all add: linked_append)
  from l2 have l3: "linked h (n # Y)"
    by simp
  from assms(1) have d: "p \<noteq> n" "p \<notin> set X" "n \<notin> set X" "n \<notin> set Y" "p \<notin> set Y"
    by auto
  have "linked ?h2 (X @ [p])"
    using l1 d by (simp add: linked_upd_nxt)
  moreover have "linked ?h2 [p, n]"
    using d assms(2,3) by (simp add: nth_upd)
  moreover have "linked ?h2 (n # Y)"
    using l3 d by (simp add: linked_upd_prev)
  ultimately show ?thesis
    by (simp add: linked_append)
qed

lemma addToFront_effect:
  assumes "head s = Some hp"
    and "distinct (a # hp # n # R)"
    and "\<forall>x\<in>set (a # hp # n # R). x < length h"
    and "linked h (hp # n # R)"
  shows "addToFront h s (Some a) =
           Some (h[a := (h ! a)\<lparr>prev := Some hp, nxt := Some n\<rparr>,
                   n := (h ! n)\<lparr>prev := Some a\<rparr>,
                   hp := (h ! hp)\<lparr>nxt := Some a\<rparr>])"
proof -
  from assms(4) have "nxt (h ! hp) = Some n"
    by simp
  moreover from assms(2) have "a \<noteq> hp" "a \<noteq> n" "hp \<noteq> n"
    by auto
  moreover from assms(3) have "a < length h" "hp < length h" "n < length h"
    by auto
  ultimately show ?thesis
    using assms(1) by (simp add: addToFront_def rd_def wr_def)
qed

lemma addToFront_linked:
  assumes "distinct (a # hp # n # R)"
    and "\<forall>x\<in>set (a # hp # n # R). x < length h"
    and "linked h (hp # n # R)"
  shows "linked (h[a := (h ! a)\<lparr>prev := Some hp, nxt := Some n\<rparr>,
                   n := (h ! n)\<lparr>prev := Some a\<rparr>,
                   hp := (h ! hp)\<lparr>nxt := Some a\<rparr>]) (hp # a # n # R)"
proof -
  let ?h1 = "h[a := (h ! a)\<lparr>prev := Some hp, nxt := Some n\<rparr>]"
  let ?h2 = "?h1[n := (h ! n)\<lparr>prev := Some a\<rparr>]"
  let ?h3 = "?h2[hp := (h ! hp)\<lparr>nxt := Some a\<rparr>]"
  from assms(1) have d: "a \<noteq> hp" "a \<noteq> n" "hp \<noteq> n" "a \<notin> set R" "hp \<notin> set R" "n \<notin> set R"
    by auto
  from assms(2) have b: "a < length h" "hp < length h" "n < length h"
    by auto
  from assms(3) have l: "linked h (n # R)"
    by simp
  have "linked ?h3 (n # R)"
    using l d by (simp add: linked_upd_prev)
  moreover have "linked ?h3 [hp, a, n]"
    using d b by (simp add: nth_upd)
  ultimately show ?thesis
    using linked_append [of ?h3 "[hp]" a n R] by simp
qed

subsection \<open>The list of a shard\<close>

lemma dllE:
  assumes "dll h s as"
  obtains hp tp where "head s = Some hp" "tail s = Some tp" "distinct (hp # as @ [tp])"
    "\<forall>a\<in>set (hp # as @ [tp]). a < length h" "linked h (hp # as @ [tp])"
  using assms by (auto simp: dll_def split: option.splits)

lemma dllI:
  "head s = Some hp \<Longrightarrow> tail s = Some tp \<Longrightarrow> distinct (hp # as @ [tp]) \<Longrightarrow>
   \<forall>a\<in>set (hp # as @ [tp]). a < length h \<Longrightarrow> linked h (hp # as @ [tp]) \<Longrightarrow> dll h s as"
  by (simp add: dll_def)

lemma dll_nodes:
  assumes "dll h s as"
  shows "nodes h s = Some as"
proof -
  from assms obtain hp tp where s: "head s = Some hp" "tail s = Some tp"
    and d: "distinct (hp # as @ [tp])" and b: "\<forall>a\<in>set (hp # as @ [tp]). a < length h"
    and l: "linked h (hp # as @ [tp])"
    by (rule dllE)
  from d b have "length (hp # as @ [tp]) \<le> length h"
    by (rule distinct_bounded_length)
  then have "length as < length h"
    by simp
  with l d b have "walk h (length h) (nxt (h ! hp)) (Some tp) = Some as"
    by (intro walk_linked) auto
  with s b show ?thesis
    by (simp add: nodes_def rd_def)
qed

lemma dll_frame:
  assumes "dll h s as" and "length h \<le> length h'" and "\<forall>x\<in>fp s as. h' ! x = h ! x"
  shows "dll h' s as"
proof -
  from assms(1) obtain hp tp where s: "head s = Some hp" "tail s = Some tp"
    and d: "distinct (hp # as @ [tp])" and b: "\<forall>a\<in>set (hp # as @ [tp]). a < length h"
    and l: "linked h (hp # as @ [tp])"
    by (rule dllE)
  from s assms(3) have eq: "\<forall>x\<in>set (hp # as @ [tp]). h' ! x = h ! x"
    by (auto simp: fp_def)
  have "linked h' (hp # as @ [tp]) = linked h (hp # as @ [tp])"
  proof (rule linked_cong)
    show "\<forall>x\<in>set (butlast (hp # as @ [tp])). nxt (h' ! x) = nxt (h ! x)"
      using eq by (auto dest: in_set_butlastD)
    show "\<forall>y\<in>set (tl (hp # as @ [tp])). prev (h' ! y) = prev (h ! y)"
      using eq by auto
  qed
  moreover have "\<forall>a\<in>set (hp # as @ [tp]). a < length h'"
  proof
    fix a
    assume "a \<in> set (hp # as @ [tp])"
    with b have "a < length h"
      by (rule bspec)
    with assms(2) show "a < length h'"
      by simp
  qed
  ultimately show ?thesis
    using l s d by (intro dllI [of s hp tp]) simp_all
qed

lemma table_ok_frame:
  assumes "table_ok h s as" and "\<forall>x\<in>set as. key (h' ! x) = key (h ! x)"
  shows "table_ok h' s as"
proof -
  from assms(2) have "(\<lambda>a. key (h' ! a)) ` set as = (\<lambda>a. key (h ! a)) ` set as"
    by (intro image_cong) simp_all
  with assms show ?thesis
    by (simp add: table_ok_def)
qed

lemma shard_inv_frame:
  assumes "shard_inv h s as" and "length h \<le> length h'" and "\<forall>x\<in>fp s as. h' ! x = h ! x"
  shows "shard_inv h' s as"
proof -
  from assms(3) have "\<forall>x\<in>set as. key (h' ! x) = key (h ! x)"
    by (simp add: fp_def)
  with assms(1) have "table_ok h' s as"
    by (simp add: shard_inv_def table_ok_frame [of h s as h'])
  moreover from assms have "dll h' s as"
    by (simp add: shard_inv_def dll_frame [of h s as h'])
  ultimately show ?thesis
    using assms(1) by (simp add: shard_inv_def)
qed

lemma table_ok_inj:
  assumes "table_ok h s as" and "a \<in> set as" and "b \<in> set as"
    and "key (h ! a) = key (h ! b)"
  shows "a = b"
proof -
  from assms(1,2) have A: "cache s (key (h ! a)) = Some (Some a)"
    by (simp add: table_ok_def)
  from assms(1,3) have B: "cache s (key (h ! b)) = Some (Some b)"
    by (simp add: table_ok_def)
  from A have "Some (Some a) = cache s (key (h ! b))"
    by (simp only: assms(4))
  also note B
  finally show ?thesis
    by simp
qed

lemma split_around:
  assumes "a \<in> set as" and "distinct as"
  shows "\<exists>X p n Y. hp # as @ [tp] = X @ p # a # n # Y \<and>
                    hp # remove1 a as @ [tp] = X @ p # n # Y"
proof -
  from assms(1) obtain xs ys where as: "as = xs @ a # ys"
    by (auto dest: split_list)
  with assms(2) have "a \<notin> set xs"
    by simp
  then have r: "remove1 a as = xs @ ys"
    by (simp add: as remove1_append)
  define X where "X = butlast (hp # xs)"
  define p where "p = last (hp # xs)"
  define n where "n = hd (ys @ [tp])"
  define Y where "Y = tl (ys @ [tp])"
  have 1: "hp # xs = X @ [p]"
    unfolding X_def p_def by (rule append_butlast_last_id [symmetric]) simp
  have 2: "ys @ [tp] = n # Y"
    unfolding n_def Y_def by simp
  have "hp # as @ [tp] = (hp # xs) @ a # (ys @ [tp])"
    by (simp add: as)
  also have "\<dots> = X @ p # a # n # Y"
    by (simp only: 1 2) simp
  finally have A: "hp # as @ [tp] = X @ p # a # n # Y" .
  have "hp # remove1 a as @ [tp] = (hp # xs) @ (ys @ [tp])"
    by (simp add: r)
  also have "\<dots> = X @ p # n # Y"
    by (simp only: 1 2) simp
  finally have "hp # remove1 a as @ [tp] = X @ p # n # Y" .
  with A show ?thesis
    by blast
qed

subsection \<open>What each list operation preserves\<close>

lemma fp_set:
  "head s = Some hp \<Longrightarrow> tail s = Some tp \<Longrightarrow> fp s as = set (hp # as @ [tp])"
  by (auto simp: fp_def)

lemma table_ok_set:
  assumes "table_ok h s as" and "set as' = set as" and "\<forall>x. key (h' ! x) = key (h ! x)"
  shows "table_ok h' s as'"
  using assms by (simp add: table_ok_def)

lemma key_upd:
  "key v = key (h ! i) \<Longrightarrow> key (h[i := v] ! x) = key (h ! x)"
  by (simp add: nth_upd)

lemma val_upd:
  "val v = val (h ! i) \<Longrightarrow> val (h[i := v] ! x) = val (h ! x)"
  by (simp add: nth_upd)

lemma nth_upd_neq:
  "i \<noteq> x \<Longrightarrow> h[i := v] ! x = h ! x"
  by simp

lemma moveToFront_inv:
  assumes inv: "shard_inv h s as" and a: "a \<in> set as"
  shows "\<exists>h'. moveToFront h s (Some a) = Some h' \<and> shard_inv h' s (a # remove1 a as) \<and>
              length h' = length h \<and> (\<forall>x. x \<notin> fp s as \<longrightarrow> h' ! x = h ! x) \<and>
              (\<forall>x. key (h' ! x) = key (h ! x)) \<and> (\<forall>x. val (h' ! x) = val (h ! x))"
proof -
  from inv have "dll h s as" and t: "table_ok h s as" and sz: "ssize s = int (length as)"
    by (simp_all add: shard_inv_def)
  then obtain hp tp where s: "head s = Some hp" "tail s = Some tp"
    and d: "distinct (hp # as @ [tp])" and b: "\<forall>x\<in>set (hp # as @ [tp]). x < length h"
    and l: "linked h (hp # as @ [tp])"
    by (auto elim: dllE)
  from d have das: "distinct as"
    by simp
  with a obtain X p n Y where L: "hp # as @ [tp] = X @ p # a # n # Y"
    and L': "hp # remove1 a as @ [tp] = X @ p # n # Y"
    using split_around [of a as hp tp] by blast
  define h1 where "h1 = h[p := (h ! p)\<lparr>nxt := Some n\<rparr>, n := (h ! n)\<lparr>prev := Some p\<rparr>]"
  have len1: "length h1 = length h"
    by (simp add: h1_def)
  have pn: "p \<in> set (hp # as @ [tp])" "n \<in> set (hp # as @ [tp])"
    unfolding L by simp_all
  from d b l have r: "removeNode h (Some a) = Some h1"
    unfolding L h1_def by (rule removeNode_effect)
  from b pn have pb: "p < length h" and nb: "n < length h"
    by blast+
  from d pb nb l have "linked h1 (X @ p # n # Y)"
    unfolding L h1_def by (rule removeNode_linked)
  then have l1: "linked h1 (hp # remove1 a as @ [tp])"
    by (simp only: L')
  obtain n' R where nR: "remove1 a as @ [tp] = n' # R"
    by (cases "remove1 a as @ [tp]") auto
  have sub: "set (remove1 a as) = set as - {a}"
    using das by simp
  have n'R: "set (n' # R) = (set as - {a}) \<union> {tp}"
    unfolding nR [symmetric] using sub by auto
  have d': "distinct (hp # remove1 a as @ [tp])"
    using d by (auto simp: sub)
  then have d1: "distinct (a # hp # n' # R)"
    using d a unfolding nR [symmetric] by (auto simp: sub)
  have b1: "\<forall>x\<in>set (a # hp # n' # R). x < length h1"
    using b a unfolding len1 nR [symmetric] by (auto simp: sub)
  define h2 where "h2 = h1[a := (h1 ! a)\<lparr>prev := Some hp, nxt := Some n'\<rparr>,
                           n' := (h1 ! n')\<lparr>prev := Some a\<rparr>,
                           hp := (h1 ! hp)\<lparr>nxt := Some a\<rparr>]"
  have len2: "length h2 = length h"
    by (simp add: h2_def len1)
  from l1 have l1': "linked h1 (hp # n' # R)"
    by (simp only: nR)
  from s(1) d1 b1 l1' have ad: "addToFront h1 s (Some a) = Some h2"
    unfolding h2_def by (rule addToFront_effect)
  from d1 b1 l1' have "linked h2 (hp # a # n' # R)"
    unfolding h2_def by (rule addToFront_linked)
  then have l2: "linked h2 (hp # (a # remove1 a as) @ [tp])"
    by (simp add: nR)
  have d2: "distinct (hp # (a # remove1 a as) @ [tp])"
    using d a by (auto simp: sub)
  have b2: "\<forall>x\<in>set (hp # (a # remove1 a as) @ [tp]). x < length h2"
    using b a unfolding len2 by (auto simp: sub)
  from s d2 b2 l2 have dll2: "dll h2 s (a # remove1 a as)"
    by (rule dllI)
  have keys: "\<forall>x. key (h2 ! x) = key (h ! x)"
    by (simp add: h2_def h1_def key_upd)
  have vals: "\<forall>x. val (h2 ! x) = val (h ! x)"
    by (simp add: h2_def h1_def val_upd)
  have "set (a # remove1 a as) = set as"
    using a by (simp add: sub insert_absorb)
  with t keys have t2: "table_ok h2 s (a # remove1 a as)"
    by (simp add: table_ok_set [of h s as])
  from a have "0 < length as"
    by (cases as) auto
  with a sz have sz2: "ssize s = int (length (a # remove1 a as))"
    by (simp add: length_remove1)
  have n'in: "n' \<in> set (hp # as @ [tp])"
    using n'R by auto
  have fr: "\<forall>x. x \<notin> fp s as \<longrightarrow> h2 ! x = h ! x"
  proof (intro allI impI)
    fix x
    assume "x \<notin> fp s as"
    then have "x \<notin> set (hp # as @ [tp])"
      by (simp add: fp_set [OF s])
    with pn n'in a have "x \<noteq> p" "x \<noteq> n" "x \<noteq> n'" "x \<noteq> a" "x \<noteq> hp"
      by auto
    then show "h2 ! x = h ! x"
      by (simp add: h2_def h1_def)
  qed
  from r ad have "moveToFront h s (Some a) = Some h2"
    by (simp add: moveToFront_def)
  with dll2 t2 sz2 len2 fr keys vals show ?thesis
    by (simp add: shard_inv_def)
qed

lemma addToFront_new_inv:
  assumes inv: "shard_inv h s as" and k: "cache s k = None"
    and h1_def: "h1 = h @ [\<lparr>key = k, val = v, prev = None, nxt = None\<rparr>]"
    and s1_def: "s1 = s\<lparr>cache := (cache s)(k \<mapsto> Some (length h))\<rparr>"
  shows "\<exists>h2. addToFront h1 s1 (Some (length h)) = Some h2 \<and>
              shard_inv h2 (s1\<lparr>ssize := ssize s1 + 1\<rparr>) (length h # as) \<and>
              length h2 = Suc (length h) \<and>
              (\<forall>x<length h. x \<notin> fp s as \<longrightarrow> h2 ! x = h ! x) \<and>
              (\<forall>x<length h. key (h2 ! x) = key (h ! x)) \<and>
              (\<forall>x<length h. val (h2 ! x) = val (h ! x)) \<and>
              key (h2 ! length h) = k \<and> val (h2 ! length h) = v"
proof -
  from inv have "dll h s as" and t: "table_ok h s as" and sz: "ssize s = int (length as)"
    by (simp_all add: shard_inv_def)
  then obtain hp tp where s: "head s = Some hp" "tail s = Some tp"
    and d: "distinct (hp # as @ [tp])" and b: "\<forall>x\<in>set (hp # as @ [tp]). x < length h"
    and l: "linked h (hp # as @ [tp])"
    by (auto elim: dllE)
  define a where "a = length h"
  have len1: "length h1 = Suc (length h)"
    by (simp add: h1_def)
  have old: "\<forall>x<length h. h1 ! x = h ! x"
    by (simp add: h1_def nth_append)
  have new: "h1 ! a = \<lparr>key = k, val = v, prev = None, nxt = None\<rparr>"
    by (simp add: h1_def a_def)
  from b have anot: "a \<notin> set (hp # as @ [tp])"
    unfolding a_def by blast
  have "linked h1 (hp # as @ [tp]) = linked h (hp # as @ [tp])"
  proof (rule linked_cong)
    show "\<forall>x\<in>set (butlast (hp # as @ [tp])). nxt (h1 ! x) = nxt (h ! x)"
      using b old by (auto dest: in_set_butlastD)
    show "\<forall>y\<in>set (tl (hp # as @ [tp])). prev (h1 ! y) = prev (h ! y)"
      using b old by auto
  qed
  with l have l1: "linked h1 (hp # as @ [tp])"
    by simp
  obtain n R where nR: "as @ [tp] = n # R"
    by (cases "as @ [tp]") auto
  from d anot have d1: "distinct (a # hp # n # R)"
    unfolding nR by simp
  have b1: "\<forall>x\<in>set (a # hp # n # R). x < length h1"
  proof
    fix x
    assume "x \<in> set (a # hp # n # R)"
    then have "x = a \<or> x \<in> set (hp # as @ [tp])"
      unfolding nR by simp
    with b show "x < length h1"
      unfolding len1 a_def by (auto simp: less_Suc_eq)
  qed
  from l1 have l1': "linked h1 (hp # n # R)"
    by (simp only: nR)
  define h2 where "h2 = h1[a := (h1 ! a)\<lparr>prev := Some hp, nxt := Some n\<rparr>,
                           n := (h1 ! n)\<lparr>prev := Some a\<rparr>,
                           hp := (h1 ! hp)\<lparr>nxt := Some a\<rparr>]"
  have len2: "length h2 = Suc (length h)"
    by (simp add: h2_def len1)
  have hs1: "head s1 = Some hp" "tail s1 = Some tp"
    using s by (simp_all add: s1_def)
  from hs1(1) d1 b1 l1' have ad: "addToFront h1 s1 (Some a) = Some h2"
    unfolding h2_def by (rule addToFront_effect)
  from d1 b1 l1' have "linked h2 (hp # a # n # R)"
    unfolding h2_def by (rule addToFront_linked)
  then have l2: "linked h2 (hp # (a # as) @ [tp])"
    by (simp add: nR)
  from d anot have d2: "distinct (hp # (a # as) @ [tp])"
    by auto
  from b have b2: "\<forall>x\<in>set (hp # (a # as) @ [tp]). x < length h2"
    unfolding len2 a_def by (auto simp: less_Suc_eq)
  let ?s2 = "s1\<lparr>ssize := ssize s1 + 1\<rparr>"
  have hs2: "head ?s2 = Some hp" "tail ?s2 = Some tp"
    using hs1 by simp_all
  from hs2 d2 b2 l2 have dll2: "dll h2 ?s2 (a # as)"
    by (rule dllI)
  have keys1: "\<forall>x. key (h2 ! x) = key (h1 ! x)"
    by (simp add: h2_def key_upd)
  have vals1: "\<forall>x. val (h2 ! x) = val (h1 ! x)"
    by (simp add: h2_def val_upd)
  from keys1 old have keys: "\<forall>x<length h. key (h2 ! x) = key (h ! x)"
    by simp
  from vals1 old have vals: "\<forall>x<length h. val (h2 ! x) = val (h ! x)"
    by simp
  from keys1 new have ka: "key (h2 ! a) = k"
    by simp
  from vals1 new have va: "val (h2 ! a) = v"
    by simp
  have kas: "\<forall>x\<in>set as. key (h2 ! x) = key (h ! x)"
    using b keys by simp
  from t have dom: "dom (cache s) = (\<lambda>x. key (h ! x)) ` set as"
    and look: "\<forall>x\<in>set as. cache s (key (h ! x)) = Some (Some x)"
    by (simp_all add: table_ok_def)
  have knot: "\<forall>x\<in>set as. key (h ! x) \<noteq> k"
    using k look by auto
  have img: "(\<lambda>x. key (h2 ! x)) ` set as = (\<lambda>x. key (h ! x)) ` set as"
    using kas by (intro image_cong) simp_all
  have t2: "table_ok h2 ?s2 (a # as)"
    unfolding table_ok_def
  proof (intro conjI ballI)
    show "dom (cache ?s2) = (\<lambda>x. key (h2 ! x)) ` set (a # as)"
      using dom img ka by (simp add: s1_def)
  next
    fix x
    assume x: "x \<in> set (a # as)"
    show "cache ?s2 (key (h2 ! x)) = Some (Some x)"
    proof (cases "x = a")
      case True
      with ka show ?thesis
        by (simp add: s1_def a_def)
    next
      case False
      with x have "x \<in> set as"
        by simp
      with kas knot look False show ?thesis
        by (simp add: s1_def)
    qed
  qed
  have sz2: "ssize ?s2 = int (length (a # as))"
    using sz by (simp add: s1_def)
  have fr: "\<forall>x<length h. x \<notin> fp s as \<longrightarrow> h2 ! x = h ! x"
  proof (intro allI impI)
    fix x
    assume "x < length h" and "x \<notin> fp s as"
    then have "x \<notin> set (hp # as @ [tp])" and "x \<noteq> a"
      by (simp_all add: fp_set [OF s] a_def)
    then have "x \<noteq> n" "x \<noteq> a" "x \<noteq> hp"
      unfolding nR by auto
    then have "h2 ! x = h1 ! x"
      by (simp add: h2_def)
    with old \<open>x < length h\<close> show "h2 ! x = h ! x"
      by simp
  qed
  from ad dll2 t2 sz2 len2 fr keys vals ka va show ?thesis
    unfolding a_def by (simp add: shard_inv_def)
qed

lemma shard_inv_val_upd:
  assumes "shard_inv h s as"
  shows "shard_inv (h[a := (h ! a)\<lparr>val := v\<rparr>]) s as"
proof -
  let ?h = "h[a := (h ! a)\<lparr>val := v\<rparr>]"
  from assms have "dll h s as" and t: "table_ok h s as" and sz: "ssize s = int (length as)"
    by (simp_all add: shard_inv_def)
  then obtain hp tp where s: "head s = Some hp" "tail s = Some tp"
    and d: "distinct (hp # as @ [tp])" and b: "\<forall>x\<in>set (hp # as @ [tp]). x < length h"
    and l: "linked h (hp # as @ [tp])"
    by (auto elim: dllE)
  have "linked ?h (hp # as @ [tp]) = linked h (hp # as @ [tp])"
    by (rule linked_cong) (simp_all add: nth_upd)
  with l have l': "linked ?h (hp # as @ [tp])"
    by simp
  from b have b': "\<forall>x\<in>set (hp # as @ [tp]). x < length ?h"
    by simp
  from s d b' l' have "dll ?h s as"
    by (rule dllI)
  moreover have "\<forall>x. key (?h ! x) = key (h ! x)"
    by (simp add: key_upd)
  with t have "table_ok ?h s as"
    by (simp add: table_ok_set [of h s as])
  ultimately show ?thesis
    using sz by (simp add: shard_inv_def)
qed

lemma evictLRU_empty:
  assumes "shard_inv h s []"
  shows "evictLRU h s = Some (h, s)"
proof -
  from assms have "dll h s []"
    by (simp add: shard_inv_def)
  then obtain hp tp where s: "head s = Some hp" "tail s = Some tp"
    and b: "\<forall>x\<in>set (hp # [] @ [tp]). x < length h"
    and l: "linked h (hp # [] @ [tp])"
    by (auto elim: dllE)
  from l have "prev (h ! tp) = Some hp"
    by simp
  with s b show ?thesis
    by (simp add: evictLRU_def rd_def)
qed

lemma evictLRU_inv:
  assumes inv: "shard_inv h s as" and ne: "as \<noteq> []"
  defines "s' \<equiv> s\<lparr>cache := (cache s)(key (h ! last as) := None), ssize := ssize s - 1\<rparr>"
  shows "\<exists>h'. evictLRU h s = Some (h', s') \<and> shard_inv h' s' (butlast as) \<and>
              length h' = length h \<and> (\<forall>x. x \<notin> fp s as \<longrightarrow> h' ! x = h ! x) \<and>
              (\<forall>x. key (h' ! x) = key (h ! x)) \<and> (\<forall>x. val (h' ! x) = val (h ! x))"
proof -
  from inv have "dll h s as" and t: "table_ok h s as" and sz: "ssize s = int (length as)"
    by (simp_all add: shard_inv_def)
  then obtain hp tp where s: "head s = Some hp" "tail s = Some tp"
    and d: "distinct (hp # as @ [tp])" and b: "\<forall>x\<in>set (hp # as @ [tp]). x < length h"
    and l: "linked h (hp # as @ [tp])"
    by (auto elim: dllE)
  from ne obtain bs a where as: "as = bs @ [a]"
    by (cases as rule: rev_cases) auto
  define X where "X = butlast (hp # bs)"
  define p where "p = last (hp # bs)"
  have Xp: "hp # bs = X @ [p]"
    unfolding X_def p_def by (rule append_butlast_last_id [symmetric]) simp
  have "hp # as @ [tp] = (hp # bs) @ [a, tp]"
    by (simp add: as)
  then have L: "hp # as @ [tp] = X @ p # a # tp # []"
    by (simp only: Xp) simp
  have "hp # butlast as @ [tp] = (hp # bs) @ [tp]"
    by (simp add: as)
  then have L': "hp # butlast as @ [tp] = X @ p # tp # []"
    by (simp only: Xp) simp
  define h1 where "h1 = h[p := (h ! p)\<lparr>nxt := Some tp\<rparr>, tp := (h ! tp)\<lparr>prev := Some p\<rparr>]"
  have len1: "length h1 = length h"
    by (simp add: h1_def)
  have pin: "p \<in> set (hp # as @ [tp])"
    unfolding L by simp
  from b pin have pb: "p < length h"
    by blast
  from b have tb: "tp < length h" and ab: "a < length h"
    by (simp_all add: as)
  from d b l have r: "removeNode h (Some a) = Some h1"
    unfolding L h1_def by (rule removeNode_effect)
  from d pb tb l have "linked h1 (X @ p # tp # [])"
    unfolding L h1_def by (rule removeNode_linked)
  then have l1: "linked h1 (hp # butlast as @ [tp])"
    by (simp only: L')
  from l have "linked h (p # a # tp # [])"
    unfolding L by (simp add: linked_append)
  then have pv: "prev (h ! tp) = Some a"
    by simp
  from d have an1: "a \<noteq> hp" "a \<noteq> tp" "a \<notin> set bs"
    by (auto simp: as)
  from d have an2: "a \<noteq> p"
    unfolding L by simp
  note an = an1 an2
  have d1: "distinct (hp # butlast as @ [tp])"
    using d by (simp add: as)
  have b1: "\<forall>x\<in>set (hp # butlast as @ [tp]). x < length h1"
    using b unfolding len1 by (simp add: as)
  have hs': "head s' = Some hp" "tail s' = Some tp"
    using s by (simp_all add: s'_def)
  from hs' d1 b1 l1 have dll1: "dll h1 s' (butlast as)"
    by (rule dllI)
  have keys: "\<forall>x. key (h1 ! x) = key (h ! x)"
    by (simp add: h1_def key_upd)
  have vals: "\<forall>x. val (h1 ! x) = val (h ! x)"
    by (simp add: h1_def val_upd)
  from t have dom: "dom (cache s) = (\<lambda>x. key (h ! x)) ` set as"
    and look: "\<forall>x\<in>set as. cache s (key (h ! x)) = Some (Some x)"
    by (simp_all add: table_ok_def)
  have other: "key (h ! x) \<noteq> key (h ! a)" if "x \<in> set bs" for x
  proof
    assume "key (h ! x) = key (h ! a)"
    with t that have "x = a"
      by (intro table_ok_inj [of h s as x a]) (simp_all add: as)
    with an that show False
      by simp
  qed
  have t1: "table_ok h1 s' (butlast as)"
    unfolding table_ok_def
  proof (intro conjI ballI)
    have "dom (cache s') = (\<lambda>x. key (h ! x)) ` set as - {key (h ! a)}"
      using dom by (simp add: s'_def as)
    also have "\<dots> = (\<lambda>x. key (h ! x)) ` set bs"
      using other by (auto simp: as)
    finally show "dom (cache s') = (\<lambda>x. key (h1 ! x)) ` set (butlast as)"
      using keys by (simp add: as)
  next
    fix x
    assume "x \<in> set (butlast as)"
    then have x: "x \<in> set bs"
      by (simp add: as)
    with look have "cache s (key (h ! x)) = Some (Some x)"
      by (simp add: as)
    with other [OF x] keys show "cache s' (key (h1 ! x)) = Some (Some x)"
      by (simp add: s'_def as)
  qed
  have sz1: "ssize s' = int (length (butlast as))"
    using sz by (simp add: s'_def as)
  have fr: "\<forall>x. x \<notin> fp s as \<longrightarrow> h1 ! x = h ! x"
  proof (intro allI impI)
    fix x
    assume "x \<notin> fp s as"
    then have "x \<notin> set (hp # as @ [tp])"
      by (simp add: fp_set [OF s])
    with pin have "x \<noteq> p" "x \<noteq> tp"
      by auto
    then show "h1 ! x = h ! x"
      by (simp add: h1_def)
  qed
  have "rd h (tail s) = Some (h ! tp)"
    using s tb by (simp add: rd_def)
  moreover have "rd h1 (Some a) = Some (h1 ! a)"
    using ab len1 by (simp add: rd_def)
  moreover have "key (h1 ! a) = key (h ! last as)"
    using keys by (simp add: as)
  ultimately have "evictLRU h s = Some (h1, s')"
    using pv an s r by (simp add: evictLRU_def s'_def)
  with dll1 t1 sz1 len1 fr keys vals show ?thesis
    by (simp add: shard_inv_def)
qed

lemma clear_shard_inv:
  assumes "dll h s as"
  defines "s1 \<equiv> s\<lparr>cache := Map.empty\<rparr>"
  shows "\<exists>h1 h2. wr h (head s1) (\<lambda>m. m\<lparr>nxt := tail s1\<rparr>) = Some h1 \<and>
                 wr h1 (tail s1) (\<lambda>m. m\<lparr>prev := head s1\<rparr>) = Some h2 \<and>
                 shard_inv h2 (s1\<lparr>ssize := 0\<rparr>) [] \<and> length h2 = length h \<and>
                 (\<forall>x. x \<notin> set_option (head s) \<union> set_option (tail s) \<longrightarrow> h2 ! x = h ! x)"
proof -
  from assms(1) obtain hp tp where s: "head s = Some hp" "tail s = Some tp"
    and d: "distinct (hp # as @ [tp])" and b: "\<forall>x\<in>set (hp # as @ [tp]). x < length h"
    by (auto elim: dllE)
  from d have ne: "hp \<noteq> tp"
    by auto
  from b have hb: "hp < length h" and tb: "tp < length h"
    by simp_all
  define h1 where "h1 = h[hp := (h ! hp)\<lparr>nxt := Some tp\<rparr>]"
  define h2 where "h2 = h1[tp := (h1 ! tp)\<lparr>prev := Some hp\<rparr>]"
  have w1: "wr h (head s1) (\<lambda>m. m\<lparr>nxt := tail s1\<rparr>) = Some h1"
    using s hb by (simp add: wr_def s1_def h1_def)
  have w2: "wr h1 (tail s1) (\<lambda>m. m\<lparr>prev := head s1\<rparr>) = Some h2"
    using s tb by (simp add: wr_def s1_def h1_def h2_def)
  have len: "length h2 = length h"
    by (simp add: h1_def h2_def)
  have "linked h2 (hp # [] @ [tp])"
    using ne hb tb by (simp add: h1_def h2_def nth_upd)
  moreover have "distinct (hp # [] @ [tp])"
    using ne by simp
  moreover have "\<forall>x\<in>set (hp # [] @ [tp]). x < length h2"
    using hb tb len by simp
  moreover have "head (s1\<lparr>ssize := 0\<rparr>) = Some hp" "tail (s1\<lparr>ssize := 0\<rparr>) = Some tp"
    using s by (simp_all add: s1_def)
  ultimately have "dll h2 (s1\<lparr>ssize := 0\<rparr>) []"
    by (intro dllI [of _ hp tp]) simp_all
  then have "shard_inv h2 (s1\<lparr>ssize := 0\<rparr>) []"
    by (simp add: shard_inv_def table_ok_def s1_def)
  moreover have "\<forall>x. x \<notin> set_option (head s) \<union> set_option (tail s) \<longrightarrow> h2 ! x = h ! x"
    using s by (simp add: h1_def h2_def)
  ultimately show ?thesis
    using w1 w2 len by simp
qed

lemma newShard_inv:
  "\<exists>h'. newShard h cap =
           Some (h', \<lparr>capacity = cap, ssize = 0, cache = Map.empty,
                      head = Some (length h), tail = Some (Suc (length h))\<rparr>) \<and>
         shard_inv h' \<lparr>capacity = cap, ssize = 0, cache = Map.empty,
                       head = Some (length h), tail = Some (Suc (length h))\<rparr> [] \<and>
         length h' = length h + 2 \<and> (\<forall>x<length h. h' ! x = h ! x)"
  by (simp add: newShard_def alloc_def wr_def shard_inv_def dll_def table_ok_def
      nth_append nth_upd)

subsection \<open>From one shard to the cache\<close>

lemma shard_inv_nodes: "shard_inv h s as \<Longrightarrow> nodes h s = Some as"
  by (simp add: shard_inv_def dll_nodes)

lemma shard_inv_ok: "shard_inv h s as \<Longrightarrow> shard_ok h s"
  by (simp add: shard_ok_def shard_inv_nodes)

lemma shard_okE:
  assumes "shard_ok h s"
  obtains as where "shard_inv h s as" "nodes h s = Some as"
  using assms by (auto simp: shard_ok_def split: option.splits)

lemma shard_inv_footprint: "shard_inv h s as \<Longrightarrow> footprint h (Some s) = fp s as"
  by (simp add: footprint_def shard_inv_nodes)

lemma shard_inv_entries:
  "shard_inv h s as \<Longrightarrow> entries h s = Some (map (\<lambda>a. (key (h ! a), val (h ! a))) as)"
  by (simp add: entries_def shard_inv_nodes)

lemma fp_bounded:
  assumes "shard_inv h s as" and "x \<in> fp s as"
  shows "x < length h"
proof -
  from assms(1) have "dll h s as"
    by (simp add: shard_inv_def)
  then obtain hp tp where s: "head s = Some hp" "tail s = Some tp"
    and b: "\<forall>x\<in>set (hp # as @ [tp]). x < length h"
    by (auto elim: dllE)
  from assms(2) have "x \<in> set (hp # as @ [tp])"
    by (simp add: fp_set [OF s])
  with b show ?thesis
    by blast
qed

lemma cache_inv_slot:
  assumes "cache_inv (h, c)" and "i < length (shards c)"
  obtains s as where "shards c ! i = Some s" "shard_inv h s as" "nodes h s = Some as"
proof -
  from assms have "case shards c ! i of None \<Rightarrow> False | Some s \<Rightarrow> shard_ok h s"
    by (simp add: cache_inv_def)
  then obtain s where s: "shards c ! i = Some s" and "shard_ok h s"
    by (cases "shards c ! i") auto
  then obtain as where "shard_inv h s as" "nodes h s = Some as"
    by (auto elim: shard_okE)
  with s that show thesis
    by blast
qed

lemma cache_inv_disjoint:
  assumes "cache_inv (h, c)" and "i < length (shards c)" and "j < length (shards c)"
    and "i \<noteq> j" and "shards c ! i = Some s" and "shard_inv h s as"
    and "shards c ! j = Some sj" and "shard_inv h sj asj"
  shows "fp s as \<inter> fp sj asj = {}"
proof -
  from assms(1-4) have "footprint h (shards c ! i) \<inter> footprint h (shards c ! j) = {}"
    by (simp add: cache_inv_def)
  with assms(5-8) show ?thesis
    by (simp add: shard_inv_footprint)
qed

lemma lift_shard_step:
  assumes ci: "cache_inv (h, c)" and i: "i < length (shards c)" and si: "shards c ! i = Some s"
    and inv: "shard_inv h s as" and inv': "shard_inv h' s' as'"
    and len: "length h \<le> length h'"
    and fr: "\<forall>x<length h. x \<notin> fp s as \<longrightarrow> h' ! x = h ! x"
    and fp': "fp s' as' \<subseteq> fp s as \<union> {length h..<length h'}"
  shows "cache_inv (h', c\<lparr>shards := (shards c)[i := Some s']\<rparr>)"
    and "\<forall>j<length (shards c). j \<noteq> i \<longrightarrow>
           (\<forall>sj. shards c ! j = Some sj \<longrightarrow>
              nodes h' sj = nodes h sj \<and> entries h' sj = entries h sj)"
proof -
  have other: "shard_inv h' sj asj \<and> fp sj asj \<inter> fp s' as' = {} \<and>
               (\<forall>x\<in>set asj. h' ! x = h ! x)"
    if j: "j < length (shards c)" "j \<noteq> i" and sj: "shards c ! j = Some sj"
      and invj: "shard_inv h sj asj" for j sj asj
  proof -
    from ci i j si inv sj invj have dis: "fp s as \<inter> fp sj asj = {}"
      by (intro cache_inv_disjoint [of h c i j]) simp_all
    have bj: "\<forall>x\<in>fp sj asj. x < length h"
      using invj by (auto intro: fp_bounded)
    with dis fr have same: "\<forall>x\<in>fp sj asj. h' ! x = h ! x"
      by blast
    with invj len have "shard_inv h' sj asj"
      by (simp add: shard_inv_frame [of h sj asj h'])
    moreover from dis bj fp' have "fp sj asj \<inter> fp s' as' = {}"
      by fastforce
    moreover from same have "\<forall>x\<in>set asj. h' ! x = h ! x"
      by (simp add: fp_def)
    ultimately show ?thesis
      by simp
  qed
  let ?c' = "c\<lparr>shards := (shards c)[i := Some s']\<rparr>"
  show "cache_inv (h', ?c')"
    unfolding cache_inv_def
  proof (simp only: prod.case, intro conjI allI impI)
    from ci show "unat (shardMask ?c') < length (shards ?c')"
      by (simp add: cache_inv_def)
  next
    fix j
    assume j: "j < length (shards ?c')"
    show "case shards ?c' ! j of None \<Rightarrow> False | Some s \<Rightarrow> shard_ok h' s"
    proof (cases "j = i")
      case True
      with i inv' show ?thesis
        by (simp add: shard_inv_ok)
    next
      case False
      from j have j': "j < length (shards c)"
        by simp
      with ci obtain sj asj where sj: "shards c ! j = Some sj" "shard_inv h sj asj"
        by (auto elim: cache_inv_slot)
      with other [OF j' False] have "shard_inv h' sj asj"
        by simp
      with sj False show ?thesis
        by (simp add: shard_inv_ok)
    qed
  next
    fix j l
    assume j: "j < length (shards ?c')" and l: "l < length (shards ?c')" and jl: "j \<noteq> l"
    from j l have j': "j < length (shards c)" and l': "l < length (shards c)"
      by simp_all
    from ci j' obtain sj asj where sj: "shards c ! j = Some sj" "shard_inv h sj asj"
      by (auto elim: cache_inv_slot)
    from ci l' obtain sl asl where sl: "shards c ! l = Some sl" "shard_inv h sl asl"
      by (auto elim: cache_inv_slot)
    consider "j = i" | "l = i" | "j \<noteq> i" "l \<noteq> i"
      by blast
    then show "footprint h' (shards ?c' ! j) \<inter> footprint h' (shards ?c' ! l) = {}"
    proof cases
      case 1
      with jl have "l \<noteq> i"
        by simp
      from other [OF l' this sl] have "shard_inv h' sl asl" "fp sl asl \<inter> fp s' as' = {}"
        by simp_all
      with 1 \<open>l \<noteq> i\<close> i inv' sl(1) show ?thesis
        by (auto simp: shard_inv_footprint)
    next
      case 2
      with jl have "j \<noteq> i"
        by simp
      from other [OF j' this sj] have "shard_inv h' sj asj" "fp sj asj \<inter> fp s' as' = {}"
        by simp_all
      with 2 \<open>j \<noteq> i\<close> i inv' sj(1) show ?thesis
        by (auto simp: shard_inv_footprint)
    next
      case 3
      from ci j' l' jl sj sl have "fp sj asj \<inter> fp sl asl = {}"
        by (intro cache_inv_disjoint [of h c j l]) simp_all
      moreover from other [OF j' 3(1) sj] have "footprint h' (Some sj) = fp sj asj"
        by (simp add: shard_inv_footprint)
      moreover from other [OF l' 3(2) sl] have "footprint h' (Some sl) = fp sl asl"
        by (simp add: shard_inv_footprint)
      ultimately show ?thesis
        using 3 sj(1) sl(1) by simp
    qed
  qed
  show "\<forall>j<length (shards c). j \<noteq> i \<longrightarrow>
          (\<forall>sj. shards c ! j = Some sj \<longrightarrow>
             nodes h' sj = nodes h sj \<and> entries h' sj = entries h sj)"
  proof (intro allI impI)
    fix j sj
    assume j: "j < length (shards c)" "j \<noteq> i" and sj: "shards c ! j = Some sj"
    from ci j(1) sj obtain asj where invj: "shard_inv h sj asj"
      by (auto elim: cache_inv_slot)
    from other [OF j sj invj] have "shard_inv h' sj asj" and "\<forall>x\<in>set asj. h' ! x = h ! x"
      by simp_all
    with invj show "nodes h' sj = nodes h sj \<and> entries h' sj = entries h sj"
      by (simp add: shard_inv_nodes shard_inv_entries)
  qed
qed

lemma layout_update:
  assumes "i < length (shards c)" and "shards c ! i = Some s"
    and "capacity s' = capacity s" and "head s' = head s" and "tail s' = tail s"
  shows "layout (c\<lparr>shards := (shards c)[i := Some s']\<rparr>) = layout c"
proof -
  have "map (map_option (\<lambda>s. (capacity s, head s, tail s))) ((shards c)[i := Some s']) =
        map (map_option (\<lambda>s. (capacity s, head s, tail s))) (shards c)"
    using assms by (intro nth_equalityI) (auto simp: nth_list_update)
  then show ?thesis
    by (simp add: layout_def)
qed

lemma lift_view:
  assumes ci: "cache_inv (h, c)" and i: "i < length (shards c)" and si: "shards c ! i = Some s"
    and inv: "shard_inv h s as" and inv': "shard_inv h' s' as'"
    and len: "length h \<le> length h'"
    and fr: "\<forall>x<length h. x \<notin> fp s as \<longrightarrow> h' ! x = h ! x"
    and fp': "fp s' as' \<subseteq> fp s as \<union> {length h..<length h'}"
    and c': "c' = c\<lparr>shards := (shards c)[i := Some s']\<rparr>"
  shows "cache_inv (h', c')" and "view (h', c') = (view (h, c))[i := entries h' s']"
proof -
  from ci i si inv inv' len fr fp' show "cache_inv (h', c')"
    unfolding c' by (rule lift_shard_step(1))
  from ci i si inv inv' len fr fp'
  have other: "\<forall>j<length (shards c). j \<noteq> i \<longrightarrow>
           (\<forall>sj. shards c ! j = Some sj \<longrightarrow>
              nodes h' sj = nodes h sj \<and> entries h' sj = entries h sj)"
    by (rule lift_shard_step(2))
  show "view (h', c') = (view (h, c))[i := entries h' s']"
  proof (rule nth_equalityI)
    show "length (view (h', c')) = length ((view (h, c))[i := entries h' s'])"
      by (simp add: view_def c')
  next
    fix j
    assume "j < length (view (h', c'))"
    then have j: "j < length (shards c)"
      by (simp add: view_def c')
    show "view (h', c') ! j = (view (h, c))[i := entries h' s'] ! j"
    proof (cases "j = i")
      case True
      with i show ?thesis
        by (simp add: view_def c')
    next
      case False
      from ci j obtain sj where sj: "shards c ! j = Some sj"
        by (auto elim: cache_inv_slot)
      with other j False have "entries h' sj = entries h sj"
        by simp
      with False j sj show ?thesis
        by (simp add: view_def c')
    qed
  qed
qed

lemma shardIndex_bound:
  assumes "cache_inv (h, c)"
  shows "shardIndex c k < length (shards c)"
proof -
  have "hash k AND shardMask c \<le> shardMask c"
    by (rule word_and_le1)
  then have "unat (hash k AND shardMask c) \<le> unat (shardMask c)"
    by (simp add: word_le_nat_alt)
  with assms show ?thesis
    by (simp add: cache_inv_def shardIndex_def)
qed

lemma table_lookup:
  assumes "table_ok h s as" and "cache s k = Some node"
  shows "\<exists>a\<in>set as. node = Some a \<and> key (h ! a) = k"
proof -
  from assms(2) have "k \<in> dom (cache s)"
    by auto
  with assms(1) obtain a where a: "a \<in> set as" "key (h ! a) = k"
    by (auto simp: table_ok_def)
  with assms(1) have "cache s k = Some (Some a)"
    by (auto simp: table_ok_def)
  with assms(2) a show ?thesis
    by auto
qed

lemma table_absent:
  assumes "table_ok h s as" and "cache s k = None"
  shows "\<forall>a\<in>set as. key (h ! a) \<noteq> k"
  using assms by (auto simp: table_ok_def)

lemma entries_move:
  assumes inv: "shard_inv h s as" and a: "a \<in> set as"
  shows "map (\<lambda>x. (key (h ! x), val (h ! x))) (remove1 a as) =
         filter (\<lambda>e. fst e \<noteq> key (h ! a)) (map (\<lambda>x. (key (h ! x), val (h ! x))) as)"
proof -
  from inv have "dll h s as" and t: "table_ok h s as"
    by (simp_all add: shard_inv_def)
  then have d: "distinct as"
    by (auto elim: dllE)
  then have "remove1 a as = filter (\<lambda>x. x \<noteq> a) as"
    by (simp add: distinct_remove1_removeAll removeAll_filter_not_eq) metis
  moreover have "filter (\<lambda>x. x \<noteq> a) as = filter (\<lambda>x. key (h ! x) \<noteq> key (h ! a)) as"
  proof (rule filter_cong [OF refl])
    fix x
    assume "x \<in> set as"
    with t a show "(x \<noteq> a) = (key (h ! x) \<noteq> key (h ! a))"
      using table_ok_inj [of h s as x a] by auto
  qed
  ultimately show ?thesis
    by (simp add: filter_map comp_def)
qed

subsection \<open>The operations on a cache that satisfies the invariant\<close>

lemma getShard_inv:
  assumes "cache_inv (h, c)"
  obtains s as where "getShard c k = Some (Some s)" "shards c ! shardIndex c k = Some s"
    "shard_inv h s as" "nodes h s = Some as"
proof -
  from assms have i: "shardIndex c k < length (shards c)"
    by (rule shardIndex_bound)
  with assms obtain s as where "shards c ! shardIndex c k = Some s" "shard_inv h s as"
    "nodes h s = Some as"
    by (auto elim: cache_inv_slot)
  with i that show thesis
    by (simp add: getShard_def)
qed

lemma view_slot:
  assumes "i < length (shards c)" and "shards c ! i = Some s" and "shard_inv h s as"
  shows "view (h, c) ! i = Some (map (\<lambda>a. (key (h ! a), val (h ! a))) as)"
  using assms by (simp add: view_def shard_inv_entries)

lemma c_same:
  assumes "i < length (shards c)" and "shards c ! i = Some s"
  shows "c\<lparr>shards := (shards c)[i := Some s]\<rparr> = c"
proof -
  from assms have "(shards c)[i := Some s] = shards c"
    by (metis list_update_id)
  then show ?thesis
    by simp
qed

lemma Get_miss:
  assumes "getShard c k = Some (Some s)" and "cache s k = None"
  shows "Get (h, c) k = Some ((h, c), None, False)"
  using assms by (simp add: Get_def)

lemma Get_hit:
  assumes ci: "cache_inv (h, c)" and s: "shards c ! shardIndex c k = Some s"
    and inv: "shard_inv h s as" and hit: "cache s k \<noteq> None"
  shows "\<exists>h' a. a \<in> set as \<and> key (h ! a) = k \<and> cache s k = Some (Some a) \<and>
           Get (h, c) k = Some ((h', c), val (h ! a), True) \<and> cache_inv (h', c) \<and>
           shard_inv h' s (a # remove1 a as) \<and>
           val (h' ! a) = val (h ! a) \<and> key (h' ! a) = k \<and>
           view (h', c) = (view (h, c))[shardIndex c k :=
              Some ((k, val (h ! a)) #
                    filter (\<lambda>e. fst e \<noteq> k) (map (\<lambda>x. (key (h ! x), val (h ! x))) as))]"
proof -
  let ?i = "shardIndex c k"
  from ci have i: "?i < length (shards c)"
    by (rule shardIndex_bound)
  from inv have t: "table_ok h s as"
    by (simp add: shard_inv_def)
  from hit obtain node where node: "cache s k = Some node"
    by auto
  with t obtain a where a: "a \<in> set as" "node = Some a" "key (h ! a) = k"
    using table_lookup [of h s as k node] by blast
  from inv a(1) obtain h' where m: "moveToFront h s (Some a) = Some h'"
    and inv': "shard_inv h' s (a # remove1 a as)" and len: "length h' = length h"
    and fr: "\<forall>x. x \<notin> fp s as \<longrightarrow> h' ! x = h ! x"
    and keys: "\<forall>x. key (h' ! x) = key (h ! x)" and vals: "\<forall>x. val (h' ! x) = val (h ! x)"
    using moveToFront_inv [of h s as a] by blast
  have fp': "fp s (a # remove1 a as) \<subseteq> fp s as \<union> {length h..<length h'}"
    using a(1) by (auto simp: fp_def dest: notin_set_remove1)
  have c': "c = c\<lparr>shards := (shards c)[?i := Some s]\<rparr>"
    using i s by (simp add: c_same)
  from len have len': "length h \<le> length h'"
    by simp
  from fr have fr': "\<forall>x<length h. x \<notin> fp s as \<longrightarrow> h' ! x = h ! x"
    by simp
  from ci i s inv inv' len' fr' fp' c'
  have ci': "cache_inv (h', c)" and v: "view (h', c) = (view (h, c))[?i := entries h' s]"
    by (rule lift_view)+
  have "a < length h"
    using inv a(1) by (intro fp_bounded [of h s as]) (simp_all add: fp_def)
  with len have rd: "rd h' (Some a) = Some (h' ! a)"
    by (simp add: rd_def)
  from i s have gs: "getShard c k = Some (Some s)"
    by (simp add: getShard_def)
  from gs node a(2) m rd vals have g: "Get (h, c) k = Some ((h', c), val (h ! a), True)"
    by (simp add: Get_def)
  have "entries h' s = Some (map (\<lambda>x. (key (h' ! x), val (h' ! x))) (a # remove1 a as))"
    using inv' by (rule shard_inv_entries)
  also have "map (\<lambda>x. (key (h' ! x), val (h' ! x))) (a # remove1 a as) =
             (k, val (h ! a)) # map (\<lambda>x. (key (h ! x), val (h ! x))) (remove1 a as)"
    using keys vals a(3) by simp
  also have "map (\<lambda>x. (key (h ! x), val (h ! x))) (remove1 a as) =
             filter (\<lambda>e. fst e \<noteq> k) (map (\<lambda>x. (key (h ! x), val (h ! x))) as)"
    using entries_move [OF inv a(1)] a(3) by simp
  finally have e: "entries h' s = Some ((k, val (h ! a)) #
      filter (\<lambda>e. fst e \<noteq> k) (map (\<lambda>x. (key (h ! x), val (h ! x))) as))" .
  from a node g ci' inv' vals keys v e show ?thesis
    by auto
qed

lemma Put_hit:
  assumes ci: "cache_inv (h, c)" and s: "shards c ! shardIndex c k = Some s"
    and inv: "shard_inv h s as" and hit: "cache s k \<noteq> None"
  shows "\<exists>h' a. a \<in> set as \<and> key (h ! a) = k \<and> cache s k = Some (Some a) \<and>
           Put (h, c) k v = Some (h', c) \<and> cache_inv (h', c) \<and>
           shard_inv h' s (a # remove1 a as) \<and>
           val (h' ! a) = v \<and> key (h' ! a) = k \<and>
           view (h', c) = (view (h, c))[shardIndex c k :=
              Some ((k, v) #
                    filter (\<lambda>e. fst e \<noteq> k) (map (\<lambda>x. (key (h ! x), val (h ! x))) as))]"
proof -
  let ?i = "shardIndex c k"
  from ci have i: "?i < length (shards c)"
    by (rule shardIndex_bound)
  from inv have t: "table_ok h s as" and "dll h s as"
    by (simp_all add: shard_inv_def)
  then have d: "distinct as"
    by (auto elim: dllE)
  from hit obtain node where node: "cache s k = Some node"
    by auto
  with t obtain a where a: "a \<in> set as" "node = Some a" "key (h ! a) = k"
    using table_lookup [of h s as k node] by blast
  have ab: "a < length h"
    using inv a(1) by (intro fp_bounded [of h s as]) (simp_all add: fp_def)
  define h1 where "h1 = h[a := (h ! a)\<lparr>val := v\<rparr>]"
  have w: "wr h (Some a) (\<lambda>m. m\<lparr>val := v\<rparr>) = Some h1"
    using ab by (simp add: wr_def h1_def)
  have inv1: "shard_inv h1 s as"
    unfolding h1_def using inv by (rule shard_inv_val_upd)
  from inv1 a(1) obtain h' where m: "moveToFront h1 s (Some a) = Some h'"
    and inv': "shard_inv h' s (a # remove1 a as)" and len: "length h' = length h1"
    and fr: "\<forall>x. x \<notin> fp s as \<longrightarrow> h' ! x = h1 ! x"
    and keys: "\<forall>x. key (h' ! x) = key (h1 ! x)" and vals: "\<forall>x. val (h' ! x) = val (h1 ! x)"
    using moveToFront_inv [of h1 s as a] by blast
  have len1: "length h1 = length h"
    by (simp add: h1_def)
  have keys1: "\<forall>x. key (h1 ! x) = key (h ! x)"
    by (simp add: h1_def key_upd)
  have vals1: "\<forall>x. x \<noteq> a \<longrightarrow> val (h1 ! x) = val (h ! x)"
    by (simp add: h1_def)
  have va: "val (h1 ! a) = v"
    using ab by (simp add: h1_def)
  have fp': "fp s (a # remove1 a as) \<subseteq> fp s as \<union> {length h..<length h'}"
    using a(1) by (auto simp: fp_def dest: notin_set_remove1)
  have c': "c = c\<lparr>shards := (shards c)[?i := Some s]\<rparr>"
    using i s by (simp add: c_same)
  from len len1 have len': "length h \<le> length h'"
    by simp
  have fr': "\<forall>x<length h. x \<notin> fp s as \<longrightarrow> h' ! x = h ! x"
  proof (intro allI impI)
    fix x
    assume "x \<notin> fp s as"
    with a(1) have "x \<noteq> a"
      by (auto simp: fp_def)
    then have "h1 ! x = h ! x"
      by (simp add: h1_def)
    with fr \<open>x \<notin> fp s as\<close> show "h' ! x = h ! x"
      by simp
  qed
  from ci i s inv inv' len' fr' fp' c'
  have ci': "cache_inv (h', c)" and vw: "view (h', c) = (view (h, c))[?i := entries h' s]"
    by (rule lift_view)+
  from i s have gs: "getShard c k = Some (Some s)"
    by (simp add: getShard_def)
  from gs node a(2) w m have p: "Put (h, c) k v = Some (h', c)"
    by (simp add: Put_def)
  have "map (\<lambda>x. (key (h' ! x), val (h' ! x))) (remove1 a as) =
        map (\<lambda>x. (key (h ! x), val (h ! x))) (remove1 a as)"
  proof (rule map_cong [OF refl])
    fix x
    assume "x \<in> set (remove1 a as)"
    with d have "x \<noteq> a"
      by auto
    with keys vals keys1 vals1
    show "(key (h' ! x), val (h' ! x)) = (key (h ! x), val (h ! x))"
      by simp
  qed
  also have "\<dots> = filter (\<lambda>e. fst e \<noteq> k) (map (\<lambda>x. (key (h ! x), val (h ! x))) as)"
    using entries_move [OF inv a(1)] a(3) by simp
  finally have rest: "map (\<lambda>x. (key (h' ! x), val (h' ! x))) (remove1 a as) =
        filter (\<lambda>e. fst e \<noteq> k) (map (\<lambda>x. (key (h ! x), val (h ! x))) as)" .
  have ka: "key (h' ! a) = k" and va': "val (h' ! a) = v"
    using keys keys1 vals va a(3) by simp_all
  have "entries h' s = Some (map (\<lambda>x. (key (h' ! x), val (h' ! x))) (a # remove1 a as))"
    using inv' by (rule shard_inv_entries)
  with rest ka va' have e: "entries h' s = Some ((k, v) #
      filter (\<lambda>e. fst e \<noteq> k) (map (\<lambda>x. (key (h ! x), val (h ! x))) as))"
    by simp
  from a node p ci' inv' ka va' vw e show ?thesis
    by auto
qed

lemma Put_new:
  assumes ci: "cache_inv (h, c)" and s: "shards c ! shardIndex c k = Some s"
    and inv: "shard_inv h s as" and miss: "cache s k = None"
  defines "s' \<equiv> s\<lparr>cache := (cache s)(k \<mapsto> Some (length h)), ssize := ssize s + 1\<rparr>"
  defines "c' \<equiv> c\<lparr>shards := (shards c)[shardIndex c k := Some s']\<rparr>"
  shows "\<exists>h'. Put (h, c) k v = Some (h', c') \<and> cache_inv (h', c') \<and>
           shard_inv h' s' (length h # as) \<and>
           key (h' ! length h) = k \<and> val (h' ! length h) = v \<and>
           view (h', c') = (view (h, c))[shardIndex c k :=
              Some ((k, v) # map (\<lambda>x. (key (h ! x), val (h ! x))) as)]"
proof -
  let ?i = "shardIndex c k"
  let ?h1 = "h @ [\<lparr>key = k, val = v, prev = None, nxt = None\<rparr>]"
  let ?s1 = "s\<lparr>cache := (cache s)(k \<mapsto> Some (length h))\<rparr>"
  from ci have i: "?i < length (shards c)"
    by (rule shardIndex_bound)
  have s'_eq: "s' = ?s1\<lparr>ssize := ssize ?s1 + 1\<rparr>"
    by (simp add: s'_def)
  from inv miss obtain h' where ad: "addToFront ?h1 ?s1 (Some (length h)) = Some h'"
    and inv': "shard_inv h' s' (length h # as)" and len: "length h' = Suc (length h)"
    and fr: "\<forall>x<length h. x \<notin> fp s as \<longrightarrow> h' ! x = h ! x"
    and keys: "\<forall>x<length h. key (h' ! x) = key (h ! x)"
    and vals: "\<forall>x<length h. val (h' ! x) = val (h ! x)"
    and ka: "key (h' ! length h) = k" and va: "val (h' ! length h) = v"
    unfolding s'_eq using addToFront_new_inv [of h s as k ?h1 v ?s1] by blast
  have fp': "fp s' (length h # as) \<subseteq> fp s as \<union> {length h..<length h'}"
    by (auto simp: fp_def s'_def len)
  from len have len': "length h \<le> length h'"
    by simp
  from ci i s inv inv' len' fr fp'
  have ci': "cache_inv (h', c')" and vw: "view (h', c') = (view (h, c))[?i := entries h' s']"
    unfolding c'_def by (rule lift_view [OF _ _ _ _ _ _ _ _ refl])+
  from i s have gs: "getShard c k = Some (Some s)"
    by (simp add: getShard_def)
  from gs miss ad have p: "Put (h, c) k v = Some (h', c')"
    by (simp add: Put_def alloc_def c'_def s'_def Let_def)
  have ab: "\<forall>x\<in>set as. x < length h"
    using inv by (auto intro: fp_bounded [of h s as] simp: fp_def)
  have "map (\<lambda>x. (key (h' ! x), val (h' ! x))) as = map (\<lambda>x. (key (h ! x), val (h ! x))) as"
    using ab keys vals by (intro map_cong) simp_all
  moreover have "entries h' s' = Some (map (\<lambda>x. (key (h' ! x), val (h' ! x))) (length h # as))"
    using inv' by (rule shard_inv_entries)
  ultimately have e: "entries h' s' =
      Some ((k, v) # map (\<lambda>x. (key (h ! x), val (h ! x))) as)"
    using ka va by simp
  from p ci' inv' ka va vw e show ?thesis
    by auto
qed

lemma evictAt_spec:
  assumes ci: "cache_inv (h, c)" and i: "i < length (shards c)"
  shows "\<exists>st'. evictAt (h, c) i = Some st' \<and> cache_inv st' \<and> layout (snd st') = layout c \<and>
           view st' = (view (h, c))[i := map_option butlast (view (h, c) ! i)]"
proof -
  from ci i obtain s as where s: "shards c ! i = Some s" and inv: "shard_inv h s as"
    by (auto elim: cache_inv_slot)
  from i s inv have vi: "view (h, c) ! i = Some (map (\<lambda>a. (key (h ! a), val (h ! a))) as)"
    by (rule view_slot)
  show ?thesis
  proof (cases "as = []")
    case True
    with inv have "evictLRU h s = Some (h, s)"
      by (simp add: evictLRU_empty)
    with i s have "evictAt (h, c) i = Some (h, c)"
      by (simp add: evictAt_def c_same)
    moreover have "map_option butlast (view (h, c) ! i) = view (h, c) ! i"
      using vi True by simp
    then have "(view (h, c))[i := map_option butlast (view (h, c) ! i)] = view (h, c)"
      by (simp only: list_update_id)
    ultimately show ?thesis
      using ci by simp
  next
    case False
    define s' where "s' = s\<lparr>cache := (cache s)(key (h ! last as) := None), ssize := ssize s - 1\<rparr>"
    define c' where "c' = c\<lparr>shards := (shards c)[i := Some s']\<rparr>"
    from inv False obtain h' where ev: "evictLRU h s = Some (h', s')"
      and inv': "shard_inv h' s' (butlast as)" and len: "length h' = length h"
      and fr: "\<forall>x. x \<notin> fp s as \<longrightarrow> h' ! x = h ! x"
      and keys: "\<forall>x. key (h' ! x) = key (h ! x)" and vals: "\<forall>x. val (h' ! x) = val (h ! x)"
      unfolding s'_def using evictLRU_inv [of h s as] by blast
    have fp': "fp s' (butlast as) \<subseteq> fp s as \<union> {length h..<length h'}"
      by (auto simp: fp_def s'_def dest: in_set_butlastD)
    from len have len': "length h \<le> length h'"
      by simp
    from fr have fr': "\<forall>x<length h. x \<notin> fp s as \<longrightarrow> h' ! x = h ! x"
      by simp
    from ci i s inv inv' len' fr' fp'
    have ci': "cache_inv (h', c')" and vw: "view (h', c') = (view (h, c))[i := entries h' s']"
      unfolding c'_def by (rule lift_view [OF _ _ _ _ _ _ _ _ refl])+
    from i s ev have e: "evictAt (h, c) i = Some (h', c')"
      by (simp add: evictAt_def c'_def)
    have "entries h' s' = Some (map (\<lambda>x. (key (h' ! x), val (h' ! x))) (butlast as))"
      using inv' by (rule shard_inv_entries)
    with keys vals have "entries h' s' = map_option butlast (view (h, c) ! i)"
      by (simp add: vi map_butlast)
    with vw have "view (h', c') = (view (h, c))[i := map_option butlast (view (h, c) ! i)]"
      by simp
    moreover have "layout c' = layout c"
      unfolding c'_def using i s by (rule layout_update) (simp_all add: s'_def)
    ultimately show ?thesis
      using e ci' by simp
  qed
qed

subsection \<open>Clearing every shard\<close>

lemma fp_Nil_sub: "fp s [] \<subseteq> fp s as"
  by (auto simp: fp_def)

lemma clearShards_spec:
  assumes ok: "\<forall>j<length ps. \<exists>s as. ps ! j = Some s \<and> shard_inv h s as"
    and dis: "\<forall>j<length ps. \<forall>l<length ps.
                j \<noteq> l \<longrightarrow> footprint h (ps ! j) \<inter> footprint h (ps ! l) = {}"
  shows "\<exists>h'. clearShards h ps =
                 Some (h', map (map_option (\<lambda>s. s\<lparr>cache := Map.empty, ssize := 0\<rparr>)) ps) \<and>
              length h' = length h \<and>
              (\<forall>x. (\<forall>j<length ps. \<forall>s. ps ! j = Some s \<longrightarrow> x \<notin> fp s []) \<longrightarrow> h' ! x = h ! x) \<and>
              (\<forall>j<length ps. \<forall>s. ps ! j = Some s \<longrightarrow>
                 shard_inv h' (s\<lparr>cache := Map.empty, ssize := 0\<rparr>) [])"
  using assms
proof (induction ps arbitrary: h)
  case Nil
  then show ?case by simp
next
  case (Cons p ps)
  from Cons.prems(1) obtain s as where p: "p = Some s" and inv: "shard_inv h s as"
    by fastforce
  let ?s1 = "s\<lparr>cache := Map.empty\<rparr>"
  let ?s0 = "s\<lparr>cache := Map.empty, ssize := 0\<rparr>"
  from inv have "dll h s as"
    by (simp add: shard_inv_def)
  then obtain h1 h2 where w1: "wr h (head ?s1) (\<lambda>m. m\<lparr>nxt := tail ?s1\<rparr>) = Some h1"
    and w2: "wr h1 (tail ?s1) (\<lambda>m. m\<lparr>prev := head ?s1\<rparr>) = Some h2"
    and inv0: "shard_inv h2 ?s0 []" and len2: "length h2 = length h"
    and fr2: "\<forall>x. x \<notin> set_option (head s) \<union> set_option (tail s) \<longrightarrow> h2 ! x = h ! x"
    using clear_shard_inv [of h s as] by auto
  have fps: "footprint h (Some s) = fp s as"
    using inv by (rule shard_inv_footprint)
  have rest: "shard_inv h2 sj asj \<and> fp sj asj \<inter> fp s as = {}"
    if j: "j < length ps" and sj: "ps ! j = Some sj" and invj: "shard_inv h sj asj" for j sj asj
  proof -
    from Cons.prems(2) j have "footprint h ((p # ps) ! Suc j) \<inter> footprint h ((p # ps) ! 0) = {}"
      by (metis Suc_less_eq length_Cons nat.distinct(1) zero_less_Suc)
    with sj invj p fps have d: "fp sj asj \<inter> fp s as = {}"
      by (simp add: shard_inv_footprint)
    have "\<forall>x\<in>fp sj asj. h2 ! x = h ! x"
    proof
      fix x
      assume "x \<in> fp sj asj"
      with d have "x \<notin> fp s as"
        by blast
      then have "x \<notin> set_option (head s) \<union> set_option (tail s)"
        by (auto simp: fp_def)
      with fr2 show "h2 ! x = h ! x"
        by simp
    qed
    with invj len2 have "shard_inv h2 sj asj"
      by (simp add: shard_inv_frame [of h sj asj h2])
    with d show ?thesis
      by simp
  qed
  have ok2: "\<forall>j<length ps. \<exists>s as. ps ! j = Some s \<and> shard_inv h2 s as"
  proof (intro allI impI)
    fix j
    assume j: "j < length ps"
    with Cons.prems(1) obtain sj asj where "ps ! j = Some sj" "shard_inv h sj asj"
      by fastforce
    with rest [OF j] show "\<exists>s as. ps ! j = Some s \<and> shard_inv h2 s as"
      by blast
  qed
  have dis2: "\<forall>j<length ps. \<forall>l<length ps.
                j \<noteq> l \<longrightarrow> footprint h2 (ps ! j) \<inter> footprint h2 (ps ! l) = {}"
  proof (intro allI impI)
    fix j l
    assume j: "j < length ps" and l: "l < length ps" and jl: "j \<noteq> l"
    from Cons.prems(1) j obtain sj asj where sj: "ps ! j = Some sj" "shard_inv h sj asj"
      by fastforce
    from Cons.prems(1) l obtain sl asl where sl: "ps ! l = Some sl" "shard_inv h sl asl"
      by fastforce
    from Cons.prems(2) j l jl
    have "footprint h ((p # ps) ! Suc j) \<inter> footprint h ((p # ps) ! Suc l) = {}"
      by (metis Suc_less_eq length_Cons nat.inject)
    with sj sl have "fp sj asj \<inter> fp sl asl = {}"
      by (simp add: shard_inv_footprint)
    moreover from rest [OF j sj] have "footprint h2 (Some sj) = fp sj asj"
      by (simp add: shard_inv_footprint)
    moreover from rest [OF l sl] have "footprint h2 (Some sl) = fp sl asl"
      by (simp add: shard_inv_footprint)
    ultimately show "footprint h2 (ps ! j) \<inter> footprint h2 (ps ! l) = {}"
      using sj(1) sl(1) by simp
  qed
  from Cons.IH [OF ok2 dis2] obtain h3 where
    cl: "clearShards h2 ps =
           Some (h3, map (map_option (\<lambda>s. s\<lparr>cache := Map.empty, ssize := 0\<rparr>)) ps)"
    and len3: "length h3 = length h2"
    and fr3: "\<forall>x. (\<forall>j<length ps. \<forall>s. ps ! j = Some s \<longrightarrow> x \<notin> fp s []) \<longrightarrow> h3 ! x = h2 ! x"
    and inv3: "\<forall>j<length ps. \<forall>s. ps ! j = Some s \<longrightarrow>
                 shard_inv h3 (s\<lparr>cache := Map.empty, ssize := 0\<rparr>) []"
    by blast
  have "\<forall>x\<in>fp ?s0 []. h3 ! x = h2 ! x"
  proof
    fix x
    assume "x \<in> fp ?s0 []"
    then have x: "x \<in> fp s as"
      by (auto simp: fp_def)
    have "\<forall>j<length ps. \<forall>sj. ps ! j = Some sj \<longrightarrow> x \<notin> fp sj []"
    proof (intro allI impI)
      fix j sj
      assume j: "j < length ps" and sj: "ps ! j = Some sj"
      with Cons.prems(1) obtain asj where "shard_inv h sj asj"
        by fastforce
      from rest [OF j sj this] x have "x \<notin> fp sj asj"
        by blast
      then show "x \<notin> fp sj []"
        using fp_Nil_sub [of sj asj] by blast
    qed
    with fr3 show "h3 ! x = h2 ! x"
      by simp
  qed
  with inv0 len3 have inv0': "shard_inv h3 ?s0 []"
    by (simp add: shard_inv_frame [of h2 ?s0 "[]" h3])
  have c: "clearShards h (p # ps) =
      Some (h3, map (map_option (\<lambda>s. s\<lparr>cache := Map.empty, ssize := 0\<rparr>)) (p # ps))"
    using p w1 w2 cl by simp
  have l: "length h3 = length h"
    using len3 len2 by simp
  have f: "\<forall>x. (\<forall>j<length (p # ps). \<forall>s. (p # ps) ! j = Some s \<longrightarrow> x \<notin> fp s [])
                \<longrightarrow> h3 ! x = h ! x"
  proof (intro allI impI)
    fix x
    assume a: "\<forall>j<length (p # ps). \<forall>s. (p # ps) ! j = Some s \<longrightarrow> x \<notin> fp s []"
    then have "x \<notin> fp s []"
      using p by (metis length_Cons nth_Cons_0 zero_less_Suc)
    then have "h2 ! x = h ! x"
      using fr2 by (simp add: fp_def)
    moreover have "\<forall>j<length ps. \<forall>s. ps ! j = Some s \<longrightarrow> x \<notin> fp s []"
      using a by (metis Suc_less_eq length_Cons nth_Cons_Suc)
    with fr3 have "h3 ! x = h2 ! x"
      by simp
    ultimately show "h3 ! x = h ! x"
      by simp
  qed
  have i: "\<forall>j<length (p # ps). \<forall>s. (p # ps) ! j = Some s \<longrightarrow>
             shard_inv h3 (s\<lparr>cache := Map.empty, ssize := 0\<rparr>) []"
  proof (intro allI impI)
    fix j sj
    assume "j < length (p # ps)" and "(p # ps) ! j = Some sj"
    with p inv0' inv3 show "shard_inv h3 (sj\<lparr>cache := Map.empty, ssize := 0\<rparr>) []"
      by (cases j) auto
  qed
  from c l f i show ?case
    by blast
qed

lemma Clear_spec:
  assumes ci: "cache_inv (h, c)"
  defines "c' \<equiv> c\<lparr>shards := map (map_option (\<lambda>s. s\<lparr>cache := Map.empty, ssize := 0\<rparr>)) (shards c)\<rparr>"
  shows "\<exists>h'. Clear (h, c) = Some (h', c') \<and> cache_inv (h', c') \<and> layout c' = layout c \<and>
              view (h', c') = replicate (length (shards c)) (Some [])"
proof -
  let ?clr = "\<lambda>s. s\<lparr>cache := Map.empty, ssize := 0\<rparr>"
  have ok: "\<forall>j<length (shards c). \<exists>s as. shards c ! j = Some s \<and> shard_inv h s as"
  proof (intro allI impI)
    fix j
    assume "j < length (shards c)"
    with ci obtain s as where "shards c ! j = Some s" "shard_inv h s as"
      by (rule cache_inv_slot)
    then show "\<exists>s as. shards c ! j = Some s \<and> shard_inv h s as"
      by blast
  qed
  have dis: "\<forall>j<length (shards c). \<forall>l<length (shards c).
               j \<noteq> l \<longrightarrow> footprint h (shards c ! j) \<inter> footprint h (shards c ! l) = {}"
    using ci by (simp add: cache_inv_def)
  from clearShards_spec [OF ok dis] obtain h' where
    cl: "clearShards h (shards c) = Some (h', map (map_option ?clr) (shards c))"
    and inv': "\<forall>j<length (shards c). \<forall>s. shards c ! j = Some s \<longrightarrow> shard_inv h' (?clr s) []"
    by blast
  from cl have C: "Clear (h, c) = Some (h', c')"
    by (simp add: Clear_def c'_def)
  have slot: "shards c' ! j = Some (?clr s) \<and> shard_inv h' (?clr s) [] \<and>
              footprint h' (shards c' ! j) \<subseteq> footprint h (shards c ! j)"
    if j: "j < length (shards c)" and s: "shards c ! j = Some s" and inv: "shard_inv h s as"
    for j s as
  proof -
    from j s have 1: "shards c' ! j = Some (?clr s)"
      by (simp add: c'_def)
    from inv' j s have 2: "shard_inv h' (?clr s) []"
      by simp
    then have "footprint h' (Some (?clr s)) = fp (?clr s) []"
      by (rule shard_inv_footprint)
    moreover have "fp (?clr s) [] \<subseteq> fp s as"
      by (auto simp: fp_def)
    moreover have "footprint h (Some s) = fp s as"
      using inv by (rule shard_inv_footprint)
    ultimately show ?thesis
      using 1 2 s by simp
  qed
  have ci': "cache_inv (h', c')"
    unfolding cache_inv_def
  proof (simp only: prod.case, intro conjI allI impI)
    from ci show "unat (shardMask c') < length (shards c')"
      by (simp add: cache_inv_def c'_def)
  next
    fix j
    assume "j < length (shards c')"
    then have j: "j < length (shards c)"
      by (simp add: c'_def)
    with ci obtain s as where "shards c ! j = Some s" "shard_inv h s as"
      by (auto elim: cache_inv_slot)
    from slot [OF j this] have "shards c' ! j = Some (?clr s)" "shard_ok h' (?clr s)"
      by (simp_all add: shard_inv_ok [of h' _ "[]"])
    then show "case shards c' ! j of None \<Rightarrow> False | Some s \<Rightarrow> shard_ok h' s"
      by simp
  next
    fix j l
    assume "j < length (shards c')" and "l < length (shards c')" and jl: "j \<noteq> l"
    then have j: "j < length (shards c)" and l: "l < length (shards c)"
      by (simp_all add: c'_def)
    from ci j obtain sj asj where sj: "shards c ! j = Some sj" "shard_inv h sj asj"
      by (auto elim: cache_inv_slot)
    from ci l obtain sl asl where sl: "shards c ! l = Some sl" "shard_inv h sl asl"
      by (auto elim: cache_inv_slot)
    from dis j l jl have "footprint h (shards c ! j) \<inter> footprint h (shards c ! l) = {}"
      by simp
    with slot [OF j sj] slot [OF l sl]
    show "footprint h' (shards c' ! j) \<inter> footprint h' (shards c' ! l) = {}"
      by blast
  qed
  have lay: "layout c' = layout c"
    by (simp add: layout_def c'_def comp_def option.map_comp)
  have vw: "view (h', c') = replicate (length (shards c)) (Some [])"
  proof (rule nth_equalityI)
    show "length (view (h', c')) = length (replicate (length (shards c)) (Some []))"
      by (simp add: view_def c'_def)
  next
    fix j
    assume "j < length (view (h', c'))"
    then have j: "j < length (shards c)"
      by (simp add: view_def c'_def)
    with ci obtain s as where s: "shards c ! j = Some s" "shard_inv h s as"
      by (auto elim: cache_inv_slot)
    from slot [OF j s] have "shards c' ! j = Some (?clr s)" "entries h' (?clr s) = Some []"
      by (simp_all add: shard_inv_entries [of h' _ "[]"])
    moreover have "j < length (shards c')"
      using j by (simp add: c'_def)
    then have "view (h', c') ! j = (case shards c' ! j of None \<Rightarrow> None | Some s \<Rightarrow> entries h' s)"
      by (simp add: view_def)
    ultimately show "view (h', c') ! j = replicate (length (shards c)) (Some []) ! j"
      using j by simp
  qed
  from C ci' lay vw show ?thesis
    by blast
qed

subsection \<open>Construction\<close>

lemma shard_inv_Nil_fields:
  assumes "shard_inv h s []"
  shows "ssize s = 0" and "cache s = Map.empty"
  using assms by (auto simp: shard_inv_def table_ok_def)

lemma fillShards_spec:
  assumes "unat numShards = length (shards c)" and "i \<le> numShards"
    and "\<forall>j<unat i. \<exists>s. shards c ! j = Some s \<and> shard_inv h s [] \<and> capacity s = cap"
    and "\<forall>j<unat i. \<forall>l<unat i.
           j \<noteq> l \<longrightarrow> footprint h (shards c ! j) \<inter> footprint h (shards c ! l) = {}"
  shows "\<exists>h' c'. fillShards h c i numShards cap = Some (h', c') \<and>
           shardMask c' = shardMask c \<and> length (shards c') = length (shards c) \<and>
           (\<forall>j<length (shards c').
              \<exists>s. shards c' ! j = Some s \<and> shard_inv h' s [] \<and> capacity s = cap) \<and>
           (\<forall>j<length (shards c'). \<forall>l<length (shards c').
              j \<noteq> l \<longrightarrow> footprint h' (shards c' ! j) \<inter> footprint h' (shards c' ! l) = {})"
  using assms
proof (induction m \<equiv> "unat numShards - unat i" arbitrary: h c i)
  case 0
  from \<open>i \<le> numShards\<close> have "unat i \<le> unat numShards"
    by (simp add: word_le_nat_alt)
  with 0(1) have eq: "unat i = unat numShards"
    by simp
  then have "\<not> i < numShards"
    by (simp add: word_less_nat_alt)
  then have "fillShards h c i numShards cap = Some (h, c)"
    by (simp add: fillShards.simps)
  with 0(2,4,5) eq show ?case
    by simp
next
  case (Suc m)
  from Suc(2) have lt: "unat i < unat numShards"
    by simp
  then have ilt: "i < numShards"
    by (simp add: word_less_nat_alt)
  have "unat numShards < 2 ^ 32"
    using unsigned_less [of numShards] by simp
  with lt have un: "unat (i + 1) = Suc (unat i)"
    by (simp add: unat_word_ariths)
  with lt have le': "i + 1 \<le> numShards"
    by (simp add: word_le_nat_alt)
  from Suc(2) un have m: "m = unat numShards - unat (i + 1)"
    by simp
  let ?s = "\<lparr>capacity = cap, ssize = 0, cache = Map.empty,
             head = Some (length h), tail = Some (Suc (length h))\<rparr>"
  obtain h1 where ns: "newShard h cap = Some (h1, ?s)" and inv1: "shard_inv h1 ?s []"
    and len1: "length h1 = length h + 2" and old: "\<forall>x<length h. h1 ! x = h ! x"
    using newShard_inv [of h cap] by blast
  let ?c1 = "c\<lparr>shards := (shards c)[unat i := Some ?s]\<rparr>"
  have ib: "unat i < length (shards c)"
    using lt Suc(3) by simp
  have fpn: "footprint h1 (Some ?s) = {length h, Suc (length h)}"
    using shard_inv_footprint [OF inv1] by (auto simp: fp_def)
  have keep: "shards ?c1 ! j = Some sj \<and> shard_inv h1 sj [] \<and> capacity sj = cap \<and>
              footprint h1 (Some sj) = footprint h (Some sj) \<and>
              footprint h (Some sj) \<subseteq> {..<length h}"
    if j: "j < unat i" and sj: "shards c ! j = Some sj" and invj: "shard_inv h sj []"
      and capj: "capacity sj = cap" for j sj
  proof -
    have b: "\<forall>x\<in>fp sj []. x < length h"
      using invj by (auto intro: fp_bounded)
    with old have "\<forall>x\<in>fp sj []. h1 ! x = h ! x"
      by simp
    with invj len1 have i1: "shard_inv h1 sj []"
      by (simp add: shard_inv_frame [of h sj "[]" h1])
    from j sj have "shards ?c1 ! j = Some sj"
      by simp
    with i1 capj b invj show ?thesis
      by (auto simp: shard_inv_footprint [of _ sj "[]"])
  qed
  have filled1: "\<forall>j<unat (i + 1).
      \<exists>s. shards ?c1 ! j = Some s \<and> shard_inv h1 s [] \<and> capacity s = cap"
  proof (intro allI impI)
    fix j
    assume "j < unat (i + 1)"
    then consider "j < unat i" | "j = unat i"
      using un by linarith
    then show "\<exists>s. shards ?c1 ! j = Some s \<and> shard_inv h1 s [] \<and> capacity s = cap"
    proof cases
      case 1
      with Suc(5) obtain sj where "shards c ! j = Some sj" "shard_inv h sj []" "capacity sj = cap"
        by blast
      from keep [OF 1 this] show ?thesis
        by blast
    next
      case 2
      with ib inv1 show ?thesis
        by simp
    qed
  qed
  have newdis: "footprint h1 (shards ?c1 ! j) \<inter> footprint h1 (shards ?c1 ! unat i) = {}"
    if j: "j < unat i" for j
  proof -
    from Suc(5) j obtain sj where sj: "shards c ! j = Some sj" "shard_inv h sj []"
      "capacity sj = cap"
      by blast
    from keep [OF j sj] have "shards ?c1 ! j = Some sj" "footprint h1 (Some sj) \<subseteq> {..<length h}"
      by simp_all
    moreover have "shards ?c1 ! unat i = Some ?s"
      using ib by simp
    ultimately show ?thesis
      using fpn by auto
  qed
  have dis1: "\<forall>j<unat (i + 1). \<forall>l<unat (i + 1).
      j \<noteq> l \<longrightarrow> footprint h1 (shards ?c1 ! j) \<inter> footprint h1 (shards ?c1 ! l) = {}"
  proof (intro allI impI)
    fix j l
    assume "j < unat (i + 1)" and "l < unat (i + 1)" and jl: "j \<noteq> l"
    then consider "j < unat i" "l < unat i" | "j < unat i" "l = unat i" | "j = unat i" "l < unat i"
      using un by linarith
    then show "footprint h1 (shards ?c1 ! j) \<inter> footprint h1 (shards ?c1 ! l) = {}"
    proof cases
      case 1
      from Suc(5) 1(1) obtain sj where sj: "shards c ! j = Some sj" "shard_inv h sj []"
        "capacity sj = cap"
        by blast
      from Suc(5) 1(2) obtain sl where sl: "shards c ! l = Some sl" "shard_inv h sl []"
        "capacity sl = cap"
        by blast
      from Suc(6) 1 jl have "footprint h (shards c ! j) \<inter> footprint h (shards c ! l) = {}"
        by simp
      with keep [OF 1(1) sj] keep [OF 1(2) sl] sj(1) sl(1) show ?thesis
        by simp
    next
      case 2
      with newdis [of j] show ?thesis
        by simp
    next
      case 3
      with newdis [of l] show ?thesis
        by (simp add: Int_commute)
    qed
  qed
  have len: "unat numShards = length (shards ?c1)"
    using Suc(3) by simp
  from Suc(1) [OF m len le' filled1 dis1] obtain h' c' where
    "fillShards h1 ?c1 (i + 1) numShards cap = Some (h', c')"
    "shardMask c' = shardMask ?c1" "length (shards c') = length (shards ?c1)"
    "\<forall>j<length (shards c'). \<exists>s. shards c' ! j = Some s \<and> shard_inv h' s [] \<and> capacity s = cap"
    "\<forall>j<length (shards c'). \<forall>l<length (shards c').
       j \<noteq> l \<longrightarrow> footprint h' (shards c' ! j) \<inter> footprint h' (shards c' ! l) = {}"
    by blast
  moreover from ilt ns ib
  have "fillShards h c i numShards cap = fillShards h1 ?c1 (i + 1) numShards cap"
    by (subst fillShards.simps) simp
  ultimately show ?case
    by simp
qed

lemma numShards_simp:
  "(if (if n0 < 16 then 16 else n0) < 1024 then 1024 else (if n0 < 16 then 16 else n0)) =
   (if n0 < 1024 then 1024 else n0)" for n0 :: "32 word"
proof (cases "n0 < 16")
  case True
  then have "n0 < 1024"
    by (simp add: word_less_nat_alt)
  with True show ?thesis
    by simp
next
  case False
  then show ?thesis
    by simp
qed

lemma NewLRUCache_spec:
  fixes h :: "'v heap" and ncpu cap :: int
  defines "n \<equiv> (if nextPowerOf2 (word_of_int (ncpu * 4)) < 1024 then 1024
                 else nextPowerOf2 (word_of_int (ncpu * 4)))"
  defines "sc \<equiv> (if cap sdiv uint n < 1 then 1 else cap sdiv uint n)"
  shows "\<exists>h' c. NewLRUCache h ncpu cap = Some (h', c) \<and> cache_inv (h', c) \<and>
           length (shards c) = unat n \<and> shardMask c = n - 1 \<and>
           (\<forall>j<length (shards c). \<exists>s. shards c ! j = Some s \<and> capacity s = sc \<and>
              ssize s = 0 \<and> cache s = Map.empty) \<and>
           view (h', c) = replicate (unat n) (Some [])"
proof -
  let ?c0 = "\<lparr>shards = replicate (unat n) None, shardMask = n - 1\<rparr>"
  have N: "NewLRUCache h ncpu cap = fillShards h ?c0 0 n sc"
    by (simp add: NewLRUCache_def Let_def numShards_simp n_def sc_def)
  have "\<exists>h' c'. fillShards h ?c0 0 n sc = Some (h', c') \<and>
           shardMask c' = shardMask ?c0 \<and> length (shards c') = length (shards ?c0) \<and>
           (\<forall>j<length (shards c').
              \<exists>s. shards c' ! j = Some s \<and> shard_inv h' s [] \<and> capacity s = sc) \<and>
           (\<forall>j<length (shards c'). \<forall>l<length (shards c').
              j \<noteq> l \<longrightarrow> footprint h' (shards c' ! j) \<inter> footprint h' (shards c' ! l) = {})"
    by (rule fillShards_spec) simp_all
  then obtain h' c where f: "fillShards h ?c0 0 n sc = Some (h', c)"
    and mask: "shardMask c = n - 1" and len: "length (shards c) = unat n"
    and filled: "\<forall>j<length (shards c).
                   \<exists>s. shards c ! j = Some s \<and> shard_inv h' s [] \<and> capacity s = sc"
    and dis: "\<forall>j<length (shards c). \<forall>l<length (shards c).
                j \<noteq> l \<longrightarrow> footprint h' (shards c ! j) \<inter> footprint h' (shards c ! l) = {}"
    by auto
  have "1024 \<le> n"
    by (simp add: n_def not_less)
  then have "1024 \<le> unat n"
    by (simp add: word_le_nat_alt)
  then have "n \<noteq> 0"
    by auto
  then have "unat (n - 1) = unat n - 1"
    by (rule unat_minus_one)
  with \<open>1024 \<le> unat n\<close> have "unat (shardMask c) < length (shards c)"
    by (simp add: mask len)
  moreover have "\<forall>i<length (shards c). case shards c ! i of None \<Rightarrow> False | Some s \<Rightarrow> shard_ok h' s"
  proof (intro allI impI)
    fix i
    assume "i < length (shards c)"
    with filled obtain s where "shards c ! i = Some s" "shard_inv h' s []"
      by blast
    then show "case shards c ! i of None \<Rightarrow> False | Some s \<Rightarrow> shard_ok h' s"
      by (simp add: shard_inv_ok [of h' s "[]"])
  qed
  ultimately have ci: "cache_inv (h', c)"
    using dis by (simp add: cache_inv_def)
  have fields: "\<forall>j<length (shards c). \<exists>s. shards c ! j = Some s \<and> capacity s = sc \<and>
              ssize s = 0 \<and> cache s = Map.empty"
  proof (intro allI impI)
    fix j
    assume "j < length (shards c)"
    with filled obtain s where "shards c ! j = Some s" "shard_inv h' s []" "capacity s = sc"
      by blast
    then show "\<exists>s. shards c ! j = Some s \<and> capacity s = sc \<and> ssize s = 0 \<and> cache s = Map.empty"
      using shard_inv_Nil_fields [of h' s] by simp
  qed
  have vw: "view (h', c) = replicate (unat n) (Some [])"
  proof (rule nth_equalityI)
    show "length (view (h', c)) = length (replicate (unat n) (Some []))"
      by (simp add: view_def len)
  next
    fix j
    assume "j < length (view (h', c))"
    then have j: "j < length (shards c)"
      by (simp add: view_def)
    with filled obtain s where "shards c ! j = Some s" "shard_inv h' s []"
      by blast
    with j len show "view (h', c) ! j = replicate (unat n) (Some []) ! j"
      by (simp add: view_def shard_inv_entries [of h' s "[]"])
  qed
  from N f ci len mask fields vw show ?thesis
    by simp
qed

subsection \<open>Every operation returns\<close>

lemma Get_total:
  assumes "cache_inv st"
  shows "\<exists>h' v ok. Get st k = Some ((h', snd st), v, ok) \<and> cache_inv (h', snd st)"
proof -
  obtain h c where st: "st = (h, c)"
    by (cases st)
  with assms have ci: "cache_inv (h, c)"
    by simp
  then obtain s as where gs: "getShard c k = Some (Some s)"
    and s: "shards c ! shardIndex c k = Some s" and inv: "shard_inv h s as"
    by (rule getShard_inv)
  show ?thesis
  proof (cases "cache s k")
    case None
    with gs have "Get (h, c) k = Some ((h, c), None, False)"
      by (rule Get_miss)
    with ci st show ?thesis
      by auto
  next
    case (Some node)
    then have "cache s k \<noteq> None"
      by simp
    from Get_hit [OF ci s inv this] st show ?thesis
      by auto
  qed
qed

lemma Put_total:
  assumes "cache_inv st"
  shows "\<exists>st'. Put st k v = Some st' \<and> cache_inv st' \<and> layout (snd st') = layout (snd st)"
proof -
  obtain h c where st: "st = (h, c)"
    by (cases st)
  with assms have ci: "cache_inv (h, c)"
    by simp
  then obtain s as where s: "shards c ! shardIndex c k = Some s" and inv: "shard_inv h s as"
    by (rule getShard_inv)
  from ci have i: "shardIndex c k < length (shards c)"
    by (rule shardIndex_bound)
  show ?thesis
  proof (cases "cache s k")
    case None
    let ?s' = "s\<lparr>cache := (cache s)(k \<mapsto> Some (length h)), ssize := ssize s + 1\<rparr>"
    have "layout (c\<lparr>shards := (shards c)[shardIndex c k := Some ?s']\<rparr>) = layout c"
      using i s by (rule layout_update) simp_all
    with Put_new [OF ci s inv None, of v] st show ?thesis
      by auto
  next
    case (Some node)
    then have "cache s k \<noteq> None"
      by simp
    from Put_hit [OF ci s inv this, of v] st show ?thesis
      by auto
  qed
qed

lemma step_inv:
  assumes "cache_inv st" and "step st x = Some st'"
  shows "cache_inv st' \<and> layout (snd st') = layout (snd st)"
proof (cases x)
  case (OpGet k)
  with assms Get_total [OF assms(1), of k] show ?thesis
    by auto
next
  case (OpPut k v)
  with assms Put_total [OF assms(1), of k v] show ?thesis
    by auto
next
  case OpClear
  with assms Clear_spec [of "fst st" "snd st"] show ?thesis
    by auto
next
  case (OpEvictLRU i)
  with assms(2) have "i < length (shards (snd st))"
    by (cases st) (auto simp: evictAt_def split: if_splits)
  with OpEvictLRU assms evictAt_spec [of "fst st" "snd st" i] show ?thesis
    by auto
qed

lemma reachable_inv: "reachable st \<Longrightarrow> cache_inv st"
proof (induction rule: reachable.induct)
  case (new h ncpu cap st)
  with NewLRUCache_spec [of h ncpu cap] show ?case
    by auto
next
  case (step st x st')
  then show ?case
    by (simp add: step_inv)
qed

lemma run_reachable: "reachable st \<Longrightarrow> run st xs = Some st' \<Longrightarrow> reachable st'"
proof (induction xs arbitrary: st)
  case Nil
  then show ?case by simp
next
  case (Cons x xs)
  then show ?case
    by (auto split: option.splits intro: reachable.step)
qed

subsection \<open>The operations seen through the entries\<close>

lemma entries_distinct:
  assumes "shard_inv h s as"
  shows "distinct (map fst (map (\<lambda>a. (key (h ! a), val (h ! a))) as))"
proof -
  from assms have "dll h s as" and t: "table_ok h s as"
    by (simp_all add: shard_inv_def)
  then have d: "distinct as"
    by (auto elim: dllE)
  have "inj_on (\<lambda>a. key (h ! a)) (set as)"
    using t by (auto intro!: inj_onI dest: table_ok_inj)
  with d show ?thesis
    by (simp add: comp_def distinct_map)
qed

lemma entries_lookup:
  assumes "shard_inv h s as" and "a \<in> set as"
  shows "map_of (map (\<lambda>a. (key (h ! a), val (h ! a))) as) (key (h ! a)) = Some (val (h ! a))"
proof -
  from assms(2) have "(key (h ! a), val (h ! a)) \<in> set (map (\<lambda>a. (key (h ! a), val (h ! a))) as)"
    by auto
  with entries_distinct [OF assms(1)] show ?thesis
    by (simp only: map_of_eq_Some_iff)
qed

lemma entries_dom:
  assumes "shard_inv h s as"
  shows "dom (cache s) = fst ` set (map (\<lambda>a. (key (h ! a), val (h ! a))) as)"
  using assms by (auto simp: shard_inv_def table_ok_def image_iff)

lemma view_facts:
  assumes "cache_inv (h, c)" and "i < length (shards c)"
  obtains s as where "shards c ! i = Some s" "shard_inv h s as"
    "view (h, c) ! i = Some (map (\<lambda>a. (key (h ! a), val (h ! a))) as)"
proof -
  from assms obtain s as where s: "shards c ! i = Some s" "shard_inv h s as"
    by (auto elim: cache_inv_slot)
  with assms(2) have "view (h, c) ! i = Some (map (\<lambda>a. (key (h ! a), val (h ! a))) as)"
    by (simp add: view_slot)
  with s that show thesis
    by blast
qed

lemma view_shard:
  assumes "cache_inv (h, c)" and "i < length (shards c)" and "shards c ! i = Some s"
    and "view (h, c) ! i = Some es"
  shows "ssize s = int (length es)" and "dom (cache s) = fst ` set es"
    and "distinct (map fst es)"
proof -
  from assms(1,2) obtain s' as where s': "shards c ! i = Some s'" "shard_inv h s' as"
    "view (h, c) ! i = Some (map (\<lambda>a. (key (h ! a), val (h ! a))) as)"
    by (rule view_facts)
  with assms(3,4) have eq: "s' = s" "es = map (\<lambda>a. (key (h ! a), val (h ! a))) as"
    by simp_all
  from s'(2) show "ssize s = int (length es)"
    unfolding eq by (simp add: shard_inv_def)
  from s'(2) show "dom (cache s) = fst ` set es"
    unfolding eq by (rule entries_dom)
  from s'(2) show "distinct (map fst es)"
    unfolding eq(2) by (rule entries_distinct)
qed

lemma Put_view:
  assumes ci: "cache_inv (h, c)" and v: "view (h, c) ! shardIndex c k = Some es"
  shows "\<exists>h' c'. Put (h, c) k v = Some (h', c') \<and> cache_inv (h', c') \<and> layout c' = layout c \<and>
           view (h', c') = (view (h, c))[shardIndex c k :=
                              Some ((k, v) # filter (\<lambda>e. fst e \<noteq> k) es)]"
proof -
  let ?i = "shardIndex c k"
  let ?f = "\<lambda>a. (key (h ! a), val (h ! a))"
  from ci have i: "?i < length (shards c)"
    by (rule shardIndex_bound)
  with ci obtain s as where s: "shards c ! ?i = Some s" and inv: "shard_inv h s as"
    and vs: "view (h, c) ! ?i = Some (map ?f as)"
    by (rule view_facts)
  from v vs have es: "es = map ?f as"
    by simp
  show ?thesis
  proof (cases "cache s k")
    case None
    let ?s' = "s\<lparr>cache := (cache s)(k \<mapsto> Some (length h)), ssize := ssize s + 1\<rparr>"
    let ?c' = "c\<lparr>shards := (shards c)[?i := Some ?s']\<rparr>"
    from inv have "table_ok h s as"
      by (simp add: shard_inv_def)
    from this None have "\<forall>a\<in>set as. key (h ! a) \<noteq> k"
      by (rule table_absent)
    then have "filter (\<lambda>e. fst e \<noteq> k) es = es"
      unfolding es by (simp add: filter_map comp_def)
    moreover have "layout ?c' = layout c"
      using i s by (rule layout_update) simp_all
    moreover from Put_new [OF ci s inv None, of v] obtain h' where
      "Put (h, c) k v = Some (h', ?c')" "cache_inv (h', ?c')"
      "view (h', ?c') = (view (h, c))[?i := Some ((k, v) # map ?f as)]"
      by blast
    ultimately show ?thesis
      using es by auto
  next
    case (Some node)
    then have "cache s k \<noteq> None"
      by simp
    from Put_hit [OF ci s inv this, of v] es show ?thesis
      by auto
  qed
qed

lemma Get_view:
  assumes ci: "cache_inv (h, c)" and v: "view (h, c) ! shardIndex c k = Some es"
  shows "\<exists>h'. Get (h, c) k =
                 Some ((h', c), (case map_of es k of None \<Rightarrow> (None, False)
                                 | Some x \<Rightarrow> (x, True))) \<and>
              cache_inv (h', c) \<and>
              view (h', c) =
                (case map_of es k of None \<Rightarrow> view (h, c)
                 | Some x \<Rightarrow> (view (h, c))[shardIndex c k :=
                                Some ((k, x) # filter (\<lambda>e. fst e \<noteq> k) es)])"
proof -
  let ?i = "shardIndex c k"
  let ?f = "\<lambda>a. (key (h ! a), val (h ! a))"
  from ci have i: "?i < length (shards c)"
    by (rule shardIndex_bound)
  with ci obtain s as where s: "shards c ! ?i = Some s" and inv: "shard_inv h s as"
    and vs: "view (h, c) ! ?i = Some (map ?f as)"
    by (rule view_facts)
  from v vs have es: "es = map ?f as"
    by simp
  from i s have gs: "getShard c k = Some (Some s)"
    by (simp add: getShard_def)
  show ?thesis
  proof (cases "cache s k")
    case None
    with inv have "k \<notin> fst ` set es"
      unfolding es using entries_dom [OF inv] by (metis domIff)
    then have "map_of es k = None"
      by (simp add: map_of_eq_None_iff)
    moreover from gs None have "Get (h, c) k = Some ((h, c), None, False)"
      by (rule Get_miss)
    ultimately show ?thesis
      using ci by auto
  next
    case (Some node)
    then have "cache s k \<noteq> None"
      by simp
    from Get_hit [OF ci s inv this] obtain h' a where a: "a \<in> set as" "key (h ! a) = k"
      and g: "Get (h, c) k = Some ((h', c), val (h ! a), True)" and ci': "cache_inv (h', c)"
      and vw: "view (h', c) = (view (h, c))[?i :=
                 Some ((k, val (h ! a)) # filter (\<lambda>e. fst e \<noteq> k) (map ?f as))]"
      by blast
    from entries_lookup [OF inv a(1)] a(2) have "map_of es k = Some (val (h ! a))"
      by (simp add: es)
    with g ci' vw es show ?thesis
      by auto
  qed
qed

section \<open>Runs preserve the invariant and the layout\<close>

lemma layout_fields:
  assumes "layout c' = layout c"
  shows "shardMask c' = shardMask c" and "length (shards c') = length (shards c)"
proof -
  from assms show "shardMask c' = shardMask c"
    by (simp add: layout_def)
  from assms have "map (map_option (\<lambda>s. (capacity s, head s, tail s))) (shards c') =
                   map (map_option (\<lambda>s. (capacity s, head s, tail s))) (shards c)"
    by (simp add: layout_def)
  then show "length (shards c') = length (shards c)"
    by (rule map_eq_imp_length_eq)
qed

lemma layout_shardIndex: "layout c' = layout c \<Longrightarrow> shardIndex c' k = shardIndex c k"
  by (simp add: shardIndex_def layout_def)

lemma layout_slot:
  assumes "layout c' = layout c" and "i < length (shards c)" and "shards c ! i = Some s"
  shows "\<exists>s'. shards c' ! i = Some s' \<and> capacity s' = capacity s \<and> head s' = head s \<and>
              tail s' = tail s"
proof -
  from assms(1) have m: "map (map_option (\<lambda>s. (capacity s, head s, tail s))) (shards c') =
                         map (map_option (\<lambda>s. (capacity s, head s, tail s))) (shards c)"
    by (simp add: layout_def)
  from assms(1,2) have i': "i < length (shards c')"
    using layout_fields(2) [of c' c] by simp
  from m have "map (map_option (\<lambda>s. (capacity s, head s, tail s))) (shards c') ! i =
               map (map_option (\<lambda>s. (capacity s, head s, tail s))) (shards c) ! i"
    by simp
  with assms(2,3) i' have "map_option (\<lambda>s. (capacity s, head s, tail s)) (shards c' ! i) =
                           Some (capacity s, head s, tail s)"
    by simp
  then show ?thesis
    by auto
qed

lemma run_inv:
  "cache_inv st \<Longrightarrow> run st xs = Some st' \<Longrightarrow>
   cache_inv st' \<and> layout (snd st') = layout (snd st)"
proof (induction xs arbitrary: st)
  case Nil
  then show ?case by simp
next
  case (Cons x xs)
  from Cons.prems(2) obtain st1 where 1: "step st x = Some st1" and 2: "run st1 xs = Some st'"
    by (auto split: option.splits)
  from Cons.prems(1) 1 have "cache_inv st1" "layout (snd st1) = layout (snd st)"
    by (simp_all add: step_inv)
  with Cons.IH [OF _ 2] show ?case
    by simp
qed

lemma step_total:
  assumes "cache_inv st" and "\<forall>i. x = OpEvictLRU i \<longrightarrow> i < length (shards (snd st))"
  shows "\<exists>st'. step st x = Some st'"
proof (cases x)
  case (OpGet k)
  with Get_total [OF assms(1), of k] show ?thesis
    by auto
next
  case (OpPut k v)
  with Put_total [OF assms(1), of k v] show ?thesis
    by auto
next
  case OpClear
  with assms(1) Clear_spec [of "fst st" "snd st"] show ?thesis
    by auto
next
  case (OpEvictLRU i)
  with assms evictAt_spec [of "fst st" "snd st" i] show ?thesis
    by auto
qed

lemma run_total:
  "cache_inv st \<Longrightarrow> \<forall>x\<in>set xs. \<forall>i. x = OpEvictLRU i \<longrightarrow> i < length (shards (snd st)) \<Longrightarrow>
   \<exists>st'. run st xs = Some st'"
proof (induction xs arbitrary: st)
  case Nil
  then show ?case by simp
next
  case (Cons x xs)
  from Cons.prems have "\<exists>st1. step st x = Some st1"
    by (intro step_total) simp_all
  then obtain st1 where 1: "step st x = Some st1"
    by blast
  with Cons.prems(1) have ci: "cache_inv st1" and lay: "layout (snd st1) = layout (snd st)"
    by (simp_all add: step_inv)
  from lay have "length (shards (snd st1)) = length (shards (snd st))"
    by (rule layout_fields(2))
  with Cons.prems(2) have "\<forall>x\<in>set xs. \<forall>i. x = OpEvictLRU i \<longrightarrow> i < length (shards (snd st1))"
    by simp
  from Cons.IH [OF ci this] 1 show ?case
    by simp
qed

lemma reachable_shape:
  "reachable st \<Longrightarrow>
   1024 \<le> length (shards (snd st)) \<and> Suc (unat (shardMask (snd st))) = length (shards (snd st))"
proof (induction rule: reachable.induct)
  case (new h ncpu cap st)
  define n :: "32 word" where "n = (if nextPowerOf2 (word_of_int (ncpu * 4)) < 1024 then 1024
                 else nextPowerOf2 (word_of_int (ncpu * 4)))"
  have "1024 \<le> n"
    by (simp add: n_def not_less)
  then have n: "1024 \<le> unat n"
    by (simp add: word_le_nat_alt)
  then have "n \<noteq> 0"
    by auto
  then have "unat (n - 1) = unat n - 1"
    by (rule unat_minus_one)
  with n new NewLRUCache_spec [of h ncpu cap] show ?case
    unfolding n_def by auto
next
  case (step st x st')
  from step(1) have "cache_inv st"
    by (rule reachable_inv)
  with step(2) have "layout (snd st') = layout (snd st)"
    by (simp add: step_inv)
  then have "shardMask (snd st') = shardMask (snd st)"
    and "length (shards (snd st')) = length (shards (snd st))"
    by (rule layout_fields)+
  with step(3) show ?case
    by simp
qed

lemma new8:
  "\<exists>h c. NewLRUCache ([] :: 'v heap) 8 cap = Some (h, c) \<and> cache_inv (h, c) \<and>
          length (shards c) = 1024 \<and> shardMask c = 1023 \<and>
          (\<forall>j<1024. \<exists>s. shards c ! j = Some s \<and>
             capacity s = (if cap sdiv 1024 < 1 then 1 else cap sdiv 1024) \<and>
             ssize s = 0 \<and> cache s = Map.empty) \<and>
          view (h, c) = replicate 1024 (Some [])"
proof -
  have e: "(if nextPowerOf2 (word_of_int (8 * 4)) < 1024 then 1024
            else nextPowerOf2 (word_of_int (8 * 4))) = (1024 :: 32 word)"
    by (simp add: nextPowerOf2_def)
  have u: "unat (1024 :: 32 word) = 1024" "uint (1024 :: 32 word) = 1024"
    "(1024 :: 32 word) - 1 = 1023"
    by simp_all
  from NewLRUCache_spec [of "[] :: 'v heap" 8 cap, unfolded e u]
  obtain h c where "NewLRUCache ([] :: 'v heap) 8 cap = Some (h, c)" "cache_inv (h, c)"
    "length (shards c) = 1024" "shardMask c = 1023"
    "\<forall>j<length (shards c). \<exists>s. shards c ! j = Some s \<and>
        capacity s = (if cap sdiv 1024 < 1 then 1 else cap sdiv 1024) \<and>
        ssize s = 0 \<and> cache s = Map.empty"
    "view (h, c) = replicate 1024 (Some [])"
    by blast
  then show ?thesis
    by (intro exI [of _ h] exI [of _ c]) simp
qed

section \<open>Observing a reachable cache\<close>

lemma sumSizes_total:
  "\<forall>p\<in>set ps. p \<noteq> None \<Longrightarrow>
   sumSizes ps t = Some (t + sum_list (map (\<lambda>p. ssize (the p)) ps))"
  by (induction ps arbitrary: t) auto

lemma cache_inv_slots_Some:
  assumes "cache_inv (h, c)"
  shows "\<forall>p\<in>set (shards c). p \<noteq> None"
proof
  fix p
  assume "p \<in> set (shards c)"
  then obtain i where i: "i < length (shards c)" "shards c ! i = p"
    by (auto simp: in_set_conv_nth)
  from assms i(1) obtain s as where "shards c ! i = Some s" "shard_inv h s as"
    "nodes h s = Some as"
    by (rule cache_inv_slot)
  with i(2) show "p \<noteq> None"
    by force
qed

lemma Size_total:
  assumes "cache_inv (h, c)"
  shows "Size c = Some (sum_list (map (\<lambda>p. ssize (the p)) (shards c)))"
  using cache_inv_slots_Some [OF assms] by (simp add: Size_def sumSizes_total)

lemma new_reachable:
  "\<exists>st. NewLRUCache h ncpu cap = Some st \<and> reachable st"
proof -
  from NewLRUCache_spec [of h ncpu cap] obtain st where "NewLRUCache h ncpu cap = Some st"
    by blast
  then show ?thesis
    by (auto intro: reachable.new)
qed

lemma sum_list_zero:
  "\<forall>p\<in>set ps. f p = (0 :: int) \<Longrightarrow> sum_list (map f ps) = 0"
  by (induction ps) auto

lemma shard_inv_card:
  assumes "shard_inv h s as"
  shows "card (dom (cache s)) = length as"
proof -
  from assms have "dll h s as" and t: "table_ok h s as"
    by (simp_all add: shard_inv_def)
  then have d: "distinct as"
    by (auto elim: dllE)
  have inj: "inj_on (\<lambda>a. key (h ! a)) (set as)"
    using t by (auto intro!: inj_onI dest: table_ok_inj)
  from t have "dom (cache s) = (\<lambda>a. key (h ! a)) ` set as"
    by (simp add: table_ok_def)
  then have "card (dom (cache s)) = card (set as)"
    using inj by (simp add: card_image)
  with d show ?thesis
    by (simp add: distinct_card)
qed

lemma cache_inv_sizes_agree:
  assumes "cache_inv st"
  shows "sizes_agree st"
proof -
  obtain h c where st: "st = (h, c)"
    by (cases st)
  have "case p of None \<Rightarrow> False
        | Some s \<Rightarrow> (case nodes h s of None \<Rightarrow> False
                     | Some as \<Rightarrow> ssize s = int (card (dom (cache s))) \<and>
                                  ssize s = int (length as))"
    if "p \<in> set (shards c)" for p
  proof -
    from that obtain i where i: "i < length (shards c)" "shards c ! i = p"
      by (auto simp: in_set_conv_nth)
    from assms i(1) obtain s as where s: "shards c ! i = Some s" "shard_inv h s as"
      "nodes h s = Some as"
      unfolding st by (rule cache_inv_slot)
    from s(2) have "ssize s = int (length as)"
      by (simp add: shard_inv_def)
    with shard_inv_card [OF s(2)] s i(2) show ?thesis
      by auto
  qed
  then show ?thesis
    by (simp add: sizes_agree_def st)
qed

lemma getShard_view:
  assumes "getShard c k = Some (Some s)"
  shows "view (h, c) ! shardIndex c k = entries h s"
  using assms by (auto simp: getShard_def view_def split: if_splits)

lemma getShard_slot:
  assumes "getShard c k = Some (Some s)"
  shows "shardIndex c k < length (shards c)" and "shards c ! shardIndex c k = Some s"
  using assms by (auto simp: getShard_def split: if_splits)

lemma put_get:
  assumes "cache_inv st"
  shows "\<exists>st1 st2. Put st k v = Some st1 \<and> cache_inv st1 \<and> Get st1 k = Some (st2, v, True)"
proof -
  obtain h c where st: "st = (h, c)"
    by (cases st)
  from assms have ci: "cache_inv (h, c)"
    by (simp add: st)
  let ?i = "shardIndex c k"
  from ci have i: "?i < length (shards c)"
    by (rule shardIndex_bound)
  with ci obtain s as where "shards c ! ?i = Some s" "shard_inv h s as"
    and v: "view (h, c) ! ?i = Some (map (\<lambda>a. (key (h ! a), val (h ! a))) as)"
    by (rule view_facts)
  from Put_view [OF ci v, of v] obtain h1 c1 where p: "Put (h, c) k v = Some (h1, c1)"
    and ci1: "cache_inv (h1, c1)" and lay: "layout c1 = layout c"
    and v1: "view (h1, c1) = (view (h, c))[?i := Some ((k, v) #
               filter (\<lambda>e. fst e \<noteq> k) (map (\<lambda>a. (key (h ! a), val (h ! a))) as))]"
    by blast
  from lay have idx: "shardIndex c1 k = ?i"
    by (rule layout_shardIndex)
  from i have "?i < length (view (h, c))"
    by (simp add: view_def)
  with v1 idx have "view (h1, c1) ! shardIndex c1 k = Some ((k, v) #
               filter (\<lambda>e. fst e \<noteq> k) (map (\<lambda>a. (key (h ! a), val (h ! a))) as))"
    by simp
  from Get_view [OF ci1 this] obtain h2 where "Get (h1, c1) k = Some ((h2, c1), v, True)"
    by auto
  with p ci1 st show ?thesis
    by auto
qed

lemma spec_shardCount_8: "spec_shardCount 8 = 32"
  by code_simp

lemma idx_1: "unat (hash ''user:1'' AND 1023) = 715"
  by (simp add: hash_def)

lemma idx_892: "unat (hash ''user:892'' AND 1023) = 715"
  by (simp add: hash_def)

lemma idx_1244: "unat (hash ''user:1244'' AND 1023) = 715"
  by (simp add: hash_def)

lemma observe_slot:
  assumes ci: "cache_inv (h, c)" and gs: "getShard c k = Some (Some s)"
    and v: "view (h, c) ! shardIndex c k = Some es"
  shows "entries h s = Some es" and "ssize s = int (length es)"
    and "dom (cache s) = fst ` set es"
proof -
  from gs v show "entries h s = Some es"
    by (simp add: getShard_view)
  from gs have i: "shardIndex c k < length (shards c)" and s: "shards c ! shardIndex c k = Some s"
    by (rule getShard_slot)+
  from ci i s v show "ssize s = int (length es)" and "dom (cache s) = fst ` set es"
    by (rule view_shard)+
qed

text \<open>
  \<open>nextPowerOf2\<close> returns its argument unless it is 0.  With 300 CPUs the shard count is
  therefore 1200, which is not a power of two.
\<close>

lemma shard_count_300:
  "NewLRUCache ([] :: nat heap) 300 1 \<noteq> None \<and>
   length (shards (snd (the (NewLRUCache ([] :: nat heap) 300 1)))) = 1200"
proof -
  have e: "(if nextPowerOf2 (word_of_int (300 * 4)) < 1024 then 1024
            else nextPowerOf2 (word_of_int (300 * 4))) = (1200 :: 32 word)"
    by (simp add: nextPowerOf2_def)
  have u: "unat (1200 :: 32 word) = 1200"
    by simp
  from NewLRUCache_spec [of "[] :: nat heap" 300 1, unfolded e u]
  obtain h c where "NewLRUCache ([] :: nat heap) 300 1 = Some (h, c)" "length (shards c) = 1200"
    by blast
  then show ?thesis
    by simp
qed

section \<open>The claims\<close>

text \<open>
  C1.  The claim: after every \<open>Put\<close> each shard holds at most as many entries as its
  capacity, \<open>Put\<close> evicting from the back of the list on overflow.  The source tests
  \<^verbatim>\<open>shard.size > shard.capacity\<close> and returns without evicting (\<^verbatim>\<open>// need a better logic\<close>),
  although \<^verbatim>\<open>evictLRU\<close> is there and the README promises that least recently used items
  are removed automatically.  On a machine with 8 CPUs, \<^verbatim>\<open>NewLRUCache(1)\<close> makes 1024
  shards of capacity 1; the keys \<^verbatim>\<open>user:1\<close> and \<^verbatim>\<open>user:892\<close> hash to the same shard, and
  after putting both that shard has size 2 and holds both entries.
\<close>

theorem put_exceeds_capacity:
  "\<exists>st0 st s.
     NewLRUCache ([] :: nat heap) 8 1 = Some st0 \<and>
     run st0 [OpPut ''user:1'' (Some 1), OpPut ''user:892'' (Some 2)] = Some st \<and>
     getShard (snd st) ''user:892'' = Some (Some s) \<and>
     capacity s = 1 \<and> ssize s = 2 \<and>
     entries (fst st) s = Some [(''user:892'', Some 2), (''user:1'', Some 1)]"
proof -
  obtain h0 c0 where new: "NewLRUCache ([] :: nat heap) 8 1 = Some (h0, c0)"
    and ci0: "cache_inv (h0, c0)" and len0: "length (shards c0) = 1024"
    and mask0: "shardMask c0 = 1023"
    and f0: "\<forall>j<1024. \<exists>s. shards c0 ! j = Some s \<and>
             capacity s = (if (1 :: int) sdiv 1024 < 1 then 1 else 1 sdiv 1024) \<and>
             ssize s = 0 \<and> cache s = Map.empty"
    and v0: "view (h0, c0) = replicate 1024 (Some [])"
    using new8 [of 1] by blast
  have i0: "shardIndex c0 ''user:1'' = 715" "shardIndex c0 ''user:892'' = 715"
    by (simp_all add: shardIndex_def mask0 idx_1 idx_892)
  have "(1 :: int) sdiv 1024 = 0"
    by (simp add: signed_divide_int_def)
  with f0 [rule_format, of 715] obtain s0 where s0: "shards c0 ! 715 = Some s0" "capacity s0 = 1"
    by auto
  have "view (h0, c0) ! shardIndex c0 ''user:1'' = Some []"
    by (simp add: v0 i0)
  from Put_view [OF ci0 this, of "Some 1"] obtain h1 c1 where
    p1: "Put (h0, c0) ''user:1'' (Some 1) = Some (h1, c1)" and ci1: "cache_inv (h1, c1)"
    and lay1: "layout c1 = layout c0"
    and v1: "view (h1, c1) = (replicate 1024 (Some []))[715 := Some [(''user:1'', Some 1)]]"
    by (auto simp: v0 i0)
  from lay1 have i1: "shardIndex c1 ''user:892'' = 715"
    using layout_shardIndex [of c1 c0] i0 by simp
  have "view (h1, c1) ! shardIndex c1 ''user:892'' = Some [(''user:1'', Some 1)]"
    by (simp add: v1 i1)
  from Put_view [OF ci1 this, of "Some 2"] obtain h2 c2 where
    p2: "Put (h1, c1) ''user:892'' (Some 2) = Some (h2, c2)" and ci2: "cache_inv (h2, c2)"
    and lay2: "layout c2 = layout c1"
    and v2: "view (h2, c2) = (view (h1, c1))[715 :=
               Some [(''user:892'', Some 2), (''user:1'', Some 1)]]"
    by (auto simp: i1)
  from lay2 lay1 have lay: "layout c2 = layout c0"
    by simp
  then have i2: "shardIndex c2 ''user:892'' = 715"
    using layout_shardIndex [of c2 c0] i0 by simp
  from ci2 obtain s as where gs: "getShard c2 ''user:892'' = Some (Some s)"
    and s: "shards c2 ! shardIndex c2 ''user:892'' = Some s"
    and "shard_inv h2 s as" and "nodes h2 s = Some as"
    by (rule getShard_inv)
  have "view (h2, c2) ! shardIndex c2 ''user:892'' =
          Some [(''user:892'', Some 2), (''user:1'', Some 1)]"
    by (simp add: v2 v1 i2)
  from observe_slot [OF ci2 gs this]
  have e: "entries h2 s = Some [(''user:892'', Some 2), (''user:1'', Some 1)]"
    and sz: "ssize s = 2"
    by simp_all
  from layout_slot [OF lay _ s0(1)] len0 s i2 s0(2) have cap: "capacity s = 1"
    by auto
  from p1 p2 have "run (h0, c0) [OpPut ''user:1'' (Some 1), OpPut ''user:892'' (Some 2)]
                     = Some (h2, c2)"
    by simp
  with new gs cap sz e show ?thesis
    by simp
qed

text \<open>
  C2.  The claim: a put into a full shard evicts the least recently touched key; with
  capacity 2, put A, put B, get A, put C leaves A and C and evicts B.  In the source
  nothing is evicted (the defect of C1).  With 8 CPUs, \<^verbatim>\<open>NewLRUCache(2048)\<close> makes shards
  of capacity 2; \<^verbatim>\<open>user:1\<close>, \<^verbatim>\<open>user:892\<close> and \<^verbatim>\<open>user:1244\<close> share a shard.  After the
  four calls the shard has size 3, its list is C, A, B, and \<open>Get\<close> still finds B.
\<close>

theorem lru_entry_not_evicted:
  "\<exists>st0 st s st'.
     NewLRUCache ([] :: nat heap) 8 2048 = Some st0 \<and>
     run st0 [OpPut ''user:1'' (Some 1), OpPut ''user:892'' (Some 2), OpGet ''user:1'',
              OpPut ''user:1244'' (Some 3)] = Some st \<and>
     getShard (snd st) ''user:892'' = Some (Some s) \<and>
     capacity s = 2 \<and> ssize s = 3 \<and>
     entries (fst st) s =
       Some [(''user:1244'', Some 3), (''user:1'', Some 1), (''user:892'', Some 2)] \<and>
     cache s ''user:892'' \<noteq> None \<and>
     Get st ''user:892'' = Some (st', Some 2, True)"
proof -
  obtain h0 c0 where new: "NewLRUCache ([] :: nat heap) 8 2048 = Some (h0, c0)"
    and ci0: "cache_inv (h0, c0)" and len0: "length (shards c0) = 1024"
    and mask0: "shardMask c0 = 1023"
    and f0: "\<forall>j<1024. \<exists>s. shards c0 ! j = Some s \<and>
             capacity s = (if (2048 :: int) sdiv 1024 < 1 then 1 else 2048 sdiv 1024) \<and>
             ssize s = 0 \<and> cache s = Map.empty"
    and v0: "view (h0, c0) = replicate 1024 (Some [])"
    using new8 [of 2048] by blast
  have i0: "shardIndex c0 ''user:1'' = 715" "shardIndex c0 ''user:892'' = 715"
    "shardIndex c0 ''user:1244'' = 715"
    by (simp_all add: shardIndex_def mask0 idx_1 idx_892 idx_1244)
  have "(2048 :: int) sdiv 1024 = 2"
    by (simp add: signed_divide_int_def)
  with f0 [rule_format, of 715] obtain s0 where s0: "shards c0 ! 715 = Some s0" "capacity s0 = 2"
    by auto
  have "view (h0, c0) ! shardIndex c0 ''user:1'' = Some []"
    by (simp add: v0 i0)
  from Put_view [OF ci0 this, of "Some 1"] obtain h1 c1 where
    p1: "Put (h0, c0) ''user:1'' (Some 1) = Some (h1, c1)" and ci1: "cache_inv (h1, c1)"
    and lay1: "layout c1 = layout c0"
    and v1: "view (h1, c1) = (replicate 1024 (Some []))[715 := Some [(''user:1'', Some 1)]]"
    by (auto simp: v0 i0)
  have i1: "shardIndex c1 ''user:892'' = 715" "shardIndex c1 ''user:1'' = 715"
    "shardIndex c1 ''user:1244'' = 715"
    using layout_shardIndex [OF lay1] i0 by simp_all
  have "view (h1, c1) ! shardIndex c1 ''user:892'' = Some [(''user:1'', Some 1)]"
    by (simp add: v1 i1)
  from Put_view [OF ci1 this, of "Some 2"] obtain h2 c2 where
    p2: "Put (h1, c1) ''user:892'' (Some 2) = Some (h2, c2)" and ci2: "cache_inv (h2, c2)"
    and lay2: "layout c2 = layout c1"
    and v2: "view (h2, c2) = (view (h1, c1))[715 :=
               Some [(''user:892'', Some 2), (''user:1'', Some 1)]]"
    by (auto simp: i1)
  have i2: "shardIndex c2 ''user:892'' = 715" "shardIndex c2 ''user:1'' = 715"
    "shardIndex c2 ''user:1244'' = 715"
    using layout_shardIndex [OF lay2] i1 by simp_all
  have "view (h2, c2) ! shardIndex c2 ''user:1'' =
          Some [(''user:892'', Some 2), (''user:1'', Some 1)]"
    by (simp add: v2 v1 i2)
  from Get_view [OF ci2 this] obtain h3 where
    g3: "Get (h2, c2) ''user:1'' = Some ((h3, c2), Some 1, True)" and ci3: "cache_inv (h3, c2)"
    and v3: "view (h3, c2) = (view (h2, c2))[715 :=
               Some [(''user:1'', Some 1), (''user:892'', Some 2)]]"
    by (auto simp: i2)
  have "view (h3, c2) ! shardIndex c2 ''user:1244'' =
          Some [(''user:1'', Some 1), (''user:892'', Some 2)]"
    by (simp add: v3 v2 v1 i2)
  from Put_view [OF ci3 this, of "Some 3"] obtain h4 c4 where
    p4: "Put (h3, c2) ''user:1244'' (Some 3) = Some (h4, c4)" and ci4: "cache_inv (h4, c4)"
    and lay4: "layout c4 = layout c2"
    and v4: "view (h4, c4) = (view (h3, c2))[715 :=
               Some [(''user:1244'', Some 3), (''user:1'', Some 1), (''user:892'', Some 2)]]"
    by (auto simp: i2)
  have i4: "shardIndex c4 ''user:892'' = 715"
    using layout_shardIndex [OF lay4] i2 by simp
  from lay4 lay2 lay1 have lay: "layout c4 = layout c0"
    by simp
  from ci4 obtain s as where gs: "getShard c4 ''user:892'' = Some (Some s)"
    and s: "shards c4 ! shardIndex c4 ''user:892'' = Some s"
    and "shard_inv h4 s as" and "nodes h4 s = Some as"
    by (rule getShard_inv)
  have v: "view (h4, c4) ! shardIndex c4 ''user:892'' =
          Some [(''user:1244'', Some 3), (''user:1'', Some 1), (''user:892'', Some 2)]"
    by (simp add: v4 v3 v2 v1 i4)
  from observe_slot [OF ci4 gs v]
  have e: "entries h4 s =
             Some [(''user:1244'', Some 3), (''user:1'', Some 1), (''user:892'', Some 2)]"
    and sz: "ssize s = 3"
    and dom: "dom (cache s) = fst ` set [(''user:1244'', Some (3 :: nat)), (''user:1'', Some 1),
                                         (''user:892'', Some 2)]"
    by simp_all
  from dom have res: "cache s ''user:892'' \<noteq> None"
    by auto
  from layout_slot [OF lay _ s0(1)] len0 s i4 s0(2) have cap: "capacity s = 2"
    by auto
  from Get_view [OF ci4 v] obtain h5 where
    g5: "Get (h4, c4) ''user:892'' = Some ((h5, c4), Some 2, True)"
    by auto
  from p1 p2 g3 p4 have "run (h0, c0) [OpPut ''user:1'' (Some 1), OpPut ''user:892'' (Some 2),
      OpGet ''user:1'', OpPut ''user:1244'' (Some 3)] = Some (h4, c4)"
    by simp
  with new gs cap sz e res g5 show ?thesis
    by simp
qed

text \<open>
  C3, as the source has it.  Construction never rejects: for every heap, every CPU
  count and every requested capacity, positive, zero or negative, \<open>NewLRUCache\<close> returns
  a cache of at least 1024 empty shards (the shard count is never zero), each of capacity
  \<open>max 1 (capacity / shard count)\<close>, on which a \<open>Put\<close> followed by a \<open>Get\<close> of the same
  key finds the value.
\<close>

theorem construction_never_rejects:
  "\<exists>st. NewLRUCache h ncpu cap = Some st \<and> reachable st \<and>
         1024 \<le> length (shards (snd st)) \<and>
         (\<forall>p\<in>set (shards (snd st)).
            \<exists>s. p = Some s \<and> capacity s = max 1 (cap sdiv int (length (shards (snd st)))) \<and>
                 ssize s = 0 \<and> cache s = Map.empty) \<and>
         (\<forall>k v. \<exists>st1 st2. Put st k v = Some st1 \<and> Get st1 k = Some (st2, v, True))"
proof -
  define n :: "32 word" where "n = (if nextPowerOf2 (word_of_int (ncpu * 4)) < 1024 then 1024
                 else nextPowerOf2 (word_of_int (ncpu * 4)))"
  define sc where "sc = (if cap sdiv uint n < 1 then 1 else cap sdiv uint n)"
  from NewLRUCache_spec [of h ncpu cap] obtain h' c where
    new: "NewLRUCache h ncpu cap = Some (h', c)" and ci: "cache_inv (h', c)"
    and len: "length (shards c) = unat n"
    and fields: "\<forall>j<length (shards c). \<exists>s. shards c ! j = Some s \<and> capacity s = sc \<and>
              ssize s = 0 \<and> cache s = Map.empty"
    unfolding n_def sc_def by blast
  from new have r: "reachable (h', c)"
    by (rule reachable.new)
  from reachable_shape [OF r] have big: "1024 \<le> length (shards c)"
    by simp
  have "uint n = int (length (shards c))"
    by (simp add: len)
  then have sc: "sc = max 1 (cap sdiv int (length (shards c)))"
    by (simp add: sc_def max_def)
  have slots: "\<forall>p\<in>set (shards c).
            \<exists>s. p = Some s \<and> capacity s = max 1 (cap sdiv int (length (shards c))) \<and>
                 ssize s = 0 \<and> cache s = Map.empty"
  proof
    fix p
    assume "p \<in> set (shards c)"
    then obtain j where "j < length (shards c)" "shards c ! j = p"
      by (auto simp: in_set_conv_nth)
    with fields sc show "\<exists>s. p = Some s \<and>
            capacity s = max 1 (cap sdiv int (length (shards c))) \<and>
            ssize s = 0 \<and> cache s = Map.empty"
      by force
  qed
  have "\<forall>k v. \<exists>st1 st2. Put (h', c) k v = Some st1 \<and> Get st1 k = Some (st2, v, True)"
    using put_get [OF ci] by blast
  with new r big slots show ?thesis
    by (intro exI [of _ "(h', c)"]) simp
qed

text \<open>
  The same at capacity 0 with 8 CPUs.
\<close>

theorem construction_never_rejects_witness:
  "\<exists>st. NewLRUCache ([] :: nat heap) 8 0 = Some st \<and> reachable st \<and>
         1024 \<le> length (shards (snd st)) \<and>
         (\<forall>p\<in>set (shards (snd st)).
            \<exists>s. p = Some s \<and> capacity s = max 1 (0 sdiv int (length (shards (snd st)))) \<and>
                 ssize s = 0 \<and> cache s = Map.empty) \<and>
         (\<forall>k v. \<exists>st1 st2. Put st k v = Some st1 \<and> Get st1 k = Some (st2, v, True))"
  by (rule construction_never_rejects)

text \<open>
  C3 as claimed fails: capacities 0 and -1 are not rejected, and the cache built for
  capacity 0 stores and finds a value.
\<close>

theorem construction_not_rejected:
  "NewLRUCache ([] :: nat heap) 8 0 \<noteq> None \<and> NewLRUCache ([] :: nat heap) 8 (- 1) \<noteq> None \<and>
   map_option snd (Get (the (Put (the (NewLRUCache ([] :: nat heap) 8 0)) ''user:1'' (Some 7)))
                       ''user:1'') = Some (Some 7, True)"
proof -
  obtain st where st: "NewLRUCache ([] :: nat heap) 8 0 = Some st" and r: "reachable st"
    using new_reachable by blast
  obtain st' where st': "NewLRUCache ([] :: nat heap) 8 (- 1) = Some st'"
    using new_reachable by blast
  from r have "cache_inv st"
    by (rule reachable_inv)
  from put_get [OF this, of "''user:1''" "Some 7"] st st' show ?thesis
    by auto
qed

text \<open>
  C4.  The partitioner is stable: whatever operations run on a reachable cache, every key
  selects the same slot afterwards as before, the mask and the number of shards are
  unchanged, and the shard in that slot is the same one (it has the same sentinels).
\<close>

theorem partition_stable:
  assumes "reachable st" and "run st xs = Some st'"
  shows "shardIndex (snd st') k = shardIndex (snd st) k \<and>
         length (shards (snd st')) = length (shards (snd st)) \<and>
         shardMask (snd st') = shardMask (snd st) \<and>
         (\<exists>s s'. getShard (snd st) k = Some (Some s) \<and> getShard (snd st') k = Some (Some s') \<and>
                  head s' = head s \<and> tail s' = tail s)"
proof -
  obtain h c where st: "st = (h, c)"
    by (cases st)
  obtain h' c' where st': "st' = (h', c')"
    by (cases st')
  from assms(1) have ci: "cache_inv (h, c)"
    unfolding st by (rule reachable_inv)
  with assms(2) have ci': "cache_inv (h', c')" and lay: "layout c' = layout c"
    using run_inv [of st xs st'] by (simp_all add: st st')
  from lay have idx: "shardIndex c' k = shardIndex c k"
    by (rule layout_shardIndex)
  from lay have m: "shardMask c' = shardMask c" and l: "length (shards c') = length (shards c)"
    by (rule layout_fields)+
  from ci obtain s where gs: "getShard c k = Some (Some s)"
    and s: "shards c ! shardIndex c k = Some s"
    by (auto elim: getShard_inv)
  from ci have i: "shardIndex c k < length (shards c)"
    by (rule shardIndex_bound)
  from layout_slot [OF lay i s] obtain s' where s': "shards c' ! shardIndex c k = Some s'"
    "head s' = head s" "tail s' = tail s"
    by blast
  with i l idx have "getShard c' k = Some (Some s')"
    by (simp add: getShard_def)
  with gs s' idx m l st st' show ?thesis
    by simp
qed

text \<open>
  On a new cache, after two puts, a get and a clear, \<^verbatim>\<open>user:1\<close> still selects its
  slot.
\<close>

theorem partition_stable_witness:
  "shardIndex (snd (the (run (the (NewLRUCache ([] :: nat heap) 8 1000000))
      [OpPut ''user:1'' (Some 1), OpGet ''user:1'', OpClear, OpPut ''user:2'' (Some 2)])))
      ''user:1''
   = shardIndex (snd (the (NewLRUCache ([] :: nat heap) 8 1000000))) ''user:1''"
proof -
  let ?xs = "[OpPut ''user:1'' (Some 1), OpGet ''user:1'', OpClear, OpPut ''user:2'' (Some (2 :: nat))]"
  obtain st where st: "NewLRUCache ([] :: nat heap) 8 1000000 = Some st" and r: "reachable st"
    using new_reachable by blast
  from r have "cache_inv st"
    by (rule reachable_inv)
  then obtain st' where run: "run st ?xs = Some st'"
    using run_total [of st ?xs] by auto
  from partition_stable [OF r run, of "''user:1''"] st run show ?thesis
    by simp
qed

text \<open>
  C5.  In a reachable state every key has a shard; the key is missing from that shard's
  lookup table exactly when no node of its recency list carries the key (it was never
  inserted, or it was removed); and then \<open>Get\<close> returns \<^verbatim>\<open>nil, false\<close> and the state it
  returns is the state it was given: the heap (so every recency list) and every shard's
  size and table.
\<close>

theorem get_absent_no_effect:
  assumes "reachable st"
  shows "\<exists>s es. getShard (snd st) k = Some (Some s) \<and> entries (fst st) s = Some es \<and>
                (cache s k = None \<longleftrightarrow> k \<notin> fst ` set es) \<and>
                (cache s k = None \<longrightarrow> Get st k = Some (st, None, False))"
proof -
  obtain h c where st: "st = (h, c)"
    by (cases st)
  from assms have ci: "cache_inv (h, c)"
    unfolding st by (rule reachable_inv)
  then obtain s as where gs: "getShard c k = Some (Some s)"
    and "shards c ! shardIndex c k = Some s" and inv: "shard_inv h s as"
    and "nodes h s = Some as"
    by (rule getShard_inv)
  let ?es = "map (\<lambda>a. (key (h ! a), val (h ! a))) as"
  from inv have e: "entries h s = Some ?es"
    by (rule shard_inv_entries)
  from inv have "dom (cache s) = fst ` set ?es"
    by (rule entries_dom)
  then have iff: "cache s k = None \<longleftrightarrow> k \<notin> fst ` set ?es"
    by (metis domIff)
  from gs have "cache s k = None \<longrightarrow> Get (h, c) k = Some ((h, c), None, False)"
    by (simp add: Get_miss)
  with gs e iff st show ?thesis
    by auto
qed

text \<open>
  A key never inserted, on a new cache; and a key inserted and then removed by
  \<open>evictLRU\<close>.
\<close>

theorem get_absent_no_effect_witness:
  "Get (the (NewLRUCache ([] :: nat heap) 8 1000000)) ''noneexistent''
     = Some (the (NewLRUCache ([] :: nat heap) 8 1000000), None, False) \<and>
   Get (the (run (the (NewLRUCache ([] :: nat heap) 8 1000000))
                 [OpPut ''user:1'' (Some 1), OpEvictLRU 715])) ''user:1''
     = Some (the (run (the (NewLRUCache ([] :: nat heap) 8 1000000))
                      [OpPut ''user:1'' (Some 1), OpEvictLRU 715]), None, False)"
proof -
  obtain h c where st: "NewLRUCache ([] :: nat heap) 8 1000000 = Some (h, c)"
    and ci: "cache_inv (h, c)" and len: "length (shards c) = 1024"
    and mask: "shardMask c = 1023"
    and v0: "view (h, c) = replicate 1024 (Some [])"
    using new8 [of 1000000] by blast
  from st have r: "reachable (h, c)"
    by (rule reachable.new)
  have never: "Get (h, c) k = Some ((h, c), None, False)" for k
  proof -
    from get_absent_no_effect [OF r, of k] obtain s es where
      gs: "getShard c k = Some (Some s)" and e: "entries h s = Some es"
      and iff: "cache s k = None \<longleftrightarrow> k \<notin> fst ` set es"
      and miss: "cache s k = None \<longrightarrow> Get (h, c) k = Some ((h, c), None, False)"
      by (elim exE conjE) simp
    from gs have "shardIndex c k < 1024"
      using getShard_slot(1) [OF gs] len by simp
    with gs e have "es = []"
      using getShard_view [OF gs, of h] by (simp add: v0)
    with iff miss show ?thesis
      by simp
  qed
  have i0: "shardIndex c ''user:1'' = 715"
    by (simp add: shardIndex_def mask idx_1)
  have "view (h, c) ! shardIndex c ''user:1'' = Some []"
    by (simp add: v0 i0)
  from Put_view [OF ci this, of "Some 1"] obtain h1 c1 where
    p1: "Put (h, c) ''user:1'' (Some 1) = Some (h1, c1)" and ci1: "cache_inv (h1, c1)"
    and lay1: "layout c1 = layout c"
    and v1: "view (h1, c1) = (replicate 1024 (Some []))[715 := Some [(''user:1'', Some 1)]]"
    by (auto simp: v0 i0)
  from lay1 have len1: "length (shards c1) = 1024"
    using layout_fields(2) [of c1 c] len by simp
  then have "715 < length (shards c1)"
    by simp
  from evictAt_spec [OF ci1 this] obtain st2 where
    e2: "evictAt (h1, c1) 715 = Some st2" and ci2: "cache_inv st2"
    and lay2: "layout (snd st2) = layout c1"
    and v2: "view st2 = (view (h1, c1))[715 := map_option butlast (view (h1, c1) ! 715)]"
    by blast
  from p1 e2 have run: "run (h, c) [OpPut ''user:1'' (Some 1), OpEvictLRU 715] = Some st2"
    by simp
  with r have r2: "reachable st2"
    by (rule run_reachable)
  from get_absent_no_effect [OF r2, of "''user:1''"] obtain s es where
    gs: "getShard (snd st2) ''user:1'' = Some (Some s)"
    and e: "entries (fst st2) s = Some es"
    and iff: "cache s ''user:1'' = None \<longleftrightarrow> ''user:1'' \<notin> fst ` set es"
    and miss: "cache s ''user:1'' = None \<longrightarrow> Get st2 ''user:1'' = Some (st2, None, False)"
    by (elim exE conjE) simp
  from lay2 lay1 have "shardIndex (snd st2) ''user:1'' = 715"
    using layout_shardIndex [of "snd st2" c1] layout_shardIndex [of c1 c] i0 by simp
  moreover have "view st2 ! 715 = Some []"
    by (simp add: v2 v1)
  ultimately have "es = []"
    using getShard_view [OF gs, of "fst st2"] e by simp
  with iff miss have "Get st2 ''user:1'' = Some (st2, None, False)"
    by simp
  with never [of "''noneexistent''"] st run show ?thesis
    by simp
qed

text \<open>
  C6.  From a reachable state, \<open>Put k v1\<close> then \<open>Put k v2\<close> both return; afterwards the
  shard of \<open>k\<close> maps \<open>k\<close> to one node \<open>a\<close>, which is the first node of the recency list,
  has key \<open>k\<close> and value \<open>v2\<close>; no other node of the list has key \<open>k\<close>; the second put
  leaves the cache record, hence every size and \<open>Size\<close>, as the first put left it.
\<close>

theorem put_overwrite:
  assumes "reachable st"
  shows "\<exists>st1 st2 s a rest.
           Put st k v1 = Some st1 \<and> Put st1 k v2 = Some st2 \<and>
           getShard (snd st2) k = Some (Some s) \<and> nodes (fst st2) s = Some (a # rest) \<and>
           cache s k = Some (Some a) \<and> key (fst st2 ! a) = k \<and> val (fst st2 ! a) = v2 \<and>
           (\<forall>b\<in>set rest. key (fst st2 ! b) \<noteq> k) \<and>
           snd st2 = snd st1 \<and> Size (snd st2) = Size (snd st1) \<and> Size (snd st1) \<noteq> None"
proof -
  obtain h c where st: "st = (h, c)"
    by (cases st)
  from assms have ci: "cache_inv (h, c)"
    unfolding st by (rule reachable_inv)
  then obtain s0 as0 where "getShard c k = Some (Some s0)"
    and s0: "shards c ! shardIndex c k = Some s0" and inv0: "shard_inv h s0 as0"
    and "nodes h s0 = Some as0"
    by (rule getShard_inv)
  from ci have i: "shardIndex c k < length (shards c)"
    by (rule shardIndex_bound)
  have "\<exists>h1 c1 s1 as1. Put (h, c) k v1 = Some (h1, c1) \<and> cache_inv (h1, c1) \<and>
          shardIndex c1 k = shardIndex c k \<and> shards c1 ! shardIndex c k = Some s1 \<and>
          shard_inv h1 s1 as1 \<and> cache s1 k \<noteq> None"
  proof (cases "cache s0 k")
    case None
    let ?s' = "s0\<lparr>cache := (cache s0)(k \<mapsto> Some (length h)), ssize := ssize s0 + 1\<rparr>"
    let ?c' = "c\<lparr>shards := (shards c)[shardIndex c k := Some ?s']\<rparr>"
    from Put_new [OF ci s0 inv0 None, of v1] obtain h1 where
      "Put (h, c) k v1 = Some (h1, ?c')" "cache_inv (h1, ?c')" "shard_inv h1 ?s' (length h # as0)"
      by blast
    moreover have "shardIndex ?c' k = shardIndex c k"
      by (simp add: shardIndex_def)
    moreover have "shards ?c' ! shardIndex c k = Some ?s'"
      using i by simp
    moreover have "cache ?s' k \<noteq> None"
      by simp
    ultimately show ?thesis
      by blast
  next
    case (Some node)
    then have hit: "cache s0 k \<noteq> None"
      by simp
    from Put_hit [OF ci s0 inv0 hit, of v1] obtain h1 a where
      "Put (h, c) k v1 = Some (h1, c)" "cache_inv (h1, c)" "shard_inv h1 s0 (a # remove1 a as0)"
      by blast
    with s0 hit show ?thesis
      by blast
  qed
  then obtain h1 c1 s1 as1 where p1: "Put (h, c) k v1 = Some (h1, c1)"
    and ci1: "cache_inv (h1, c1)" and idx: "shardIndex c1 k = shardIndex c k"
    and s1: "shards c1 ! shardIndex c k = Some s1" and inv1: "shard_inv h1 s1 as1"
    and hit1: "cache s1 k \<noteq> None"
    by blast
  from s1 idx have s1': "shards c1 ! shardIndex c1 k = Some s1"
    by simp
  from Put_hit [OF ci1 s1' inv1 hit1, of v2] obtain h2 a where a: "a \<in> set as1"
    and tab: "cache s1 k = Some (Some a)" and p2: "Put (h1, c1) k v2 = Some (h2, c1)"
    and ci2: "cache_inv (h2, c1)" and inv2: "shard_inv h2 s1 (a # remove1 a as1)"
    and va: "val (h2 ! a) = v2" and ka: "key (h2 ! a) = k"
    by blast
  from ci1 have "shardIndex c1 k < length (shards c1)"
    by (rule shardIndex_bound)
  with s1' have gs: "getShard c1 k = Some (Some s1)"
    by (simp add: getShard_def)
  from inv2 have n2: "nodes h2 s1 = Some (a # remove1 a as1)"
    by (rule shard_inv_nodes)
  from inv2 have t2: "table_ok h2 s1 (a # remove1 a as1)" and "dll h2 s1 (a # remove1 a as1)"
    by (simp_all add: shard_inv_def)
  then have d2: "distinct (a # remove1 a as1)"
    by (auto elim: dllE)
  have others: "\<forall>b\<in>set (remove1 a as1). key (h2 ! b) \<noteq> k"
  proof
    fix b
    assume b: "b \<in> set (remove1 a as1)"
    show "key (h2 ! b) \<noteq> k"
    proof
      assume "key (h2 ! b) = k"
      with ka have "key (h2 ! b) = key (h2 ! a)"
        by simp
      with t2 b have "b = a"
        by (intro table_ok_inj [of h2 s1 "a # remove1 a as1" b a]) simp_all
      with b d2 show False
        by simp
    qed
  qed
  from ci1 have sz: "Size c1 \<noteq> None"
    by (simp add: Size_total)
  from p1 p2 gs n2 tab ka va others sz st show ?thesis
    by simp
qed

text \<open>
  On a new cache, for the key \<^verbatim>\<open>user:1\<close>.
\<close>

theorem put_overwrite_witness:
  "\<exists>st1 st2 s a rest.
     Put (the (NewLRUCache ([] :: nat heap) 8 1000000)) ''user:1'' (Some 1) = Some st1 \<and>
     Put st1 ''user:1'' (Some 2) = Some st2 \<and>
     getShard (snd st2) ''user:1'' = Some (Some s) \<and> nodes (fst st2) s = Some (a # rest) \<and>
     cache s ''user:1'' = Some (Some a) \<and> key (fst st2 ! a) = ''user:1'' \<and>
     val (fst st2 ! a) = Some 2 \<and> (\<forall>b\<in>set rest. key (fst st2 ! b) \<noteq> ''user:1'') \<and>
     snd st2 = snd st1 \<and> Size (snd st2) = Size (snd st1) \<and> Size (snd st1) \<noteq> None"
proof -
  obtain st where st: "NewLRUCache ([] :: nat heap) 8 1000000 = Some st" and r: "reachable st"
    using new_reachable by blast
  from put_overwrite [OF r, of "''user:1''" "Some 1" "Some 2"] st show ?thesis
    by simp
qed

text \<open>
  C7.  From a reachable state \<open>Clear\<close> returns; afterwards \<open>Size\<close> is 0, \<open>Get\<close> of every
  key returns \<^verbatim>\<open>nil, false\<close>, and in every shard the table is empty, the size is 0 and
  the list holds no node: the head sentinel's \<^verbatim>\<open>next\<close> is the tail sentinel and the tail
  sentinel's \<^verbatim>\<open>prev\<close> is the head sentinel.
\<close>

theorem clear_empties:
  assumes "reachable st"
  shows "\<exists>st'. Clear st = Some st' \<and> Size (snd st') = Some 0 \<and>
           (\<forall>k. Get st' k = Some (st', None, False)) \<and>
           (\<forall>p\<in>set (shards (snd st')).
              \<exists>s hp tp. p = Some s \<and> cache s = Map.empty \<and> ssize s = 0 \<and>
                nodes (fst st') s = Some [] \<and> head s = Some hp \<and> tail s = Some tp \<and>
                nxt (fst st' ! hp) = Some tp \<and> prev (fst st' ! tp) = Some hp)"
proof -
  obtain h c where st: "st = (h, c)"
    by (cases st)
  from assms have ci: "cache_inv (h, c)"
    unfolding st by (rule reachable_inv)
  let ?clr = "\<lambda>s. s\<lparr>cache := Map.empty, ssize := 0\<rparr>"
  define c' where "c' = c\<lparr>shards := map (map_option ?clr) (shards c)\<rparr>"
  from Clear_spec [OF ci] obtain h' where cl: "Clear (h, c) = Some (h', c')"
    and ci': "cache_inv (h', c')"
    unfolding c'_def by blast
  have slot: "\<exists>s hp tp. p = Some s \<and> cache s = Map.empty \<and> ssize s = 0 \<and>
                nodes h' s = Some [] \<and> head s = Some hp \<and> tail s = Some tp \<and>
                nxt (h' ! hp) = Some tp \<and> prev (h' ! tp) = Some hp"
    if "p \<in> set (shards c')" for p
  proof -
    from that obtain i where i: "i < length (shards c')" "shards c' ! i = p"
      by (auto simp: in_set_conv_nth)
    from ci' i(1) obtain s as where s: "shards c' ! i = Some s" "shard_inv h' s as"
      "nodes h' s = Some as"
      by (rule cache_inv_slot)
    from i(1) s(1) obtain s0 where "s = ?clr s0"
      by (auto simp: c'_def)
    then have f: "cache s = Map.empty" "ssize s = 0"
      by simp_all
    with s(2) have "as = []"
      by (simp add: shard_inv_def)
    with s(2) have "dll h' s []"
      by (simp add: shard_inv_def)
    then obtain hp tp where "head s = Some hp" "tail s = Some tp" "linked h' (hp # [] @ [tp])"
      by (auto elim: dllE)
    with f s i(2) \<open>as = []\<close> show ?thesis
      by auto
  qed
  have "\<forall>p\<in>set (shards c'). ssize (the p) = 0"
    using slot by fastforce
  then have "sum_list (map (\<lambda>p. ssize (the p)) (shards c')) = 0"
    by (rule sum_list_zero)
  with Size_total [OF ci'] have sz: "Size c' = Some 0"
    by simp
  have get: "Get (h', c') k = Some ((h', c'), None, False)" for k
  proof -
    from ci' obtain s as where gs: "getShard c' k = Some (Some s)"
      and s: "shards c' ! shardIndex c' k = Some s" and "shard_inv h' s as"
      and "nodes h' s = Some as"
      by (rule getShard_inv)
    from ci' have "shardIndex c' k < length (shards c')"
      by (rule shardIndex_bound)
    with s have "Some s \<in> set (shards c')"
      by (metis nth_mem)
    with slot [of "Some s"] have "cache s k = None"
      by auto
    with gs show ?thesis
      by (rule Get_miss)
  qed
  from cl sz get slot st show ?thesis
    by simp
qed

text \<open>
  After two puts on a new cache, \<open>Clear\<close> empties it and \<^verbatim>\<open>user:1\<close> is no longer
  found.
\<close>

theorem clear_empties_witness:
  "\<exists>st'. Clear (the (run (the (NewLRUCache ([] :: nat heap) 8 1000000))
                   [OpPut ''user:1'' (Some 1), OpPut ''user:2'' (Some 2)])) = Some st' \<and>
         Size (snd st') = Some 0 \<and> Get st' ''user:1'' = Some (st', None, False)"
proof -
  let ?xs = "[OpPut ''user:1'' (Some 1), OpPut ''user:2'' (Some (2 :: nat))]"
  obtain st0 where st0: "NewLRUCache ([] :: nat heap) 8 1000000 = Some st0"
    and r0: "reachable st0"
    using new_reachable by blast
  from r0 have "cache_inv st0"
    by (rule reachable_inv)
  then obtain st where run: "run st0 ?xs = Some st"
    using run_total [of st0 ?xs] by auto
  with r0 have "reachable st"
    by (rule run_reachable)
  from clear_empties [OF this] st0 run show ?thesis
    by auto
qed

text \<open>
  C8.  In every reachable state, in every shard, the size field equals the number of
  entries of the lookup table and the number of real nodes of the recency list; and every
  operation (\<open>Get\<close>, \<open>Put\<close>, \<open>Clear\<close>, and \<open>evictLRU\<close> on an existing slot) returns a
  state where this holds again.
\<close>

theorem size_table_list_agree:
  assumes "reachable st"
  shows "sizes_agree st \<and>
         (\<forall>x. (\<forall>i. x = OpEvictLRU i \<longrightarrow> i < length (shards (snd st))) \<longrightarrow>
              (\<exists>st'. step st x = Some st' \<and> sizes_agree st'))"
proof -
  from assms have ci: "cache_inv st"
    by (rule reachable_inv)
  then have "sizes_agree st"
    by (rule cache_inv_sizes_agree)
  moreover have "\<exists>st'. step st x = Some st' \<and> sizes_agree st'"
    if "\<forall>i. x = OpEvictLRU i \<longrightarrow> i < length (shards (snd st))" for x
  proof -
    from ci that obtain st' where s: "step st x = Some st'"
      using step_total [of st x] by blast
    with ci have "cache_inv st'"
      by (simp add: step_inv)
    then have "sizes_agree st'"
      by (rule cache_inv_sizes_agree)
    with s show ?thesis
      by blast
  qed
  ultimately show ?thesis
    by blast
qed

text \<open>
  On a new cache, and after a put and after an eviction on it.
\<close>

theorem size_table_list_agree_witness:
  "sizes_agree (the (NewLRUCache ([] :: nat heap) 8 1000000)) \<and>
   (\<exists>st'. step (the (NewLRUCache ([] :: nat heap) 8 1000000)) (OpPut ''user:1'' (Some 1)) = Some st' \<and>
          sizes_agree st') \<and>
   (\<exists>st'. step (the (NewLRUCache ([] :: nat heap) 8 1000000)) (OpEvictLRU 715) = Some st' \<and>
          sizes_agree st')"
proof -
  obtain h c where st: "NewLRUCache ([] :: nat heap) 8 1000000 = Some (h, c)"
    and len: "length (shards c) = 1024"
    using new8 [of 1000000] by blast
  from st have r: "reachable (h, c)"
    by (rule reachable.new)
  from size_table_list_agree [OF r] have a: "sizes_agree (h, c)"
    and b: "\<And>x. (\<forall>i. x = OpEvictLRU i \<longrightarrow> i < length (shards c)) \<Longrightarrow>
              (\<exists>st'. step (h, c) x = Some st' \<and> sizes_agree st')"
    by simp_all
  from b [of "OpPut ''user:1'' (Some 1)"] b [of "OpEvictLRU 715"] a st len show ?thesis
    by simp
qed

text \<open>
  C9, as the source has it.  The shard count does not depend on the requested capacity
  and may exceed it; it is at least 1024, and it is \<open>2 ^ 10\<close> whenever the CPU count is
  between 0 and 256; the mask is the count minus one; and no operation changes the count
  or the mask.
\<close>

theorem shard_count_by_design:
  "\<exists>st. NewLRUCache h ncpu cap = Some st \<and>
         1024 \<le> length (shards (snd st)) \<and>
         Suc (unat (shardMask (snd st))) = length (shards (snd st)) \<and>
         (0 \<le> ncpu \<and> ncpu \<le> 256 \<longrightarrow> length (shards (snd st)) = 2 ^ 10) \<and>
         (\<forall>cap'. \<exists>st'. NewLRUCache h ncpu cap' = Some st' \<and>
                        length (shards (snd st')) = length (shards (snd st))) \<and>
         (\<forall>xs st'. run st xs = Some st' \<longrightarrow>
                     length (shards (snd st')) = length (shards (snd st)) \<and>
                     shardMask (snd st') = shardMask (snd st))"
proof -
  define n :: "32 word" where "n = (if nextPowerOf2 (word_of_int (ncpu * 4)) < 1024 then 1024
                 else nextPowerOf2 (word_of_int (ncpu * 4)))"
  have count: "\<exists>h' c. NewLRUCache h ncpu cap' = Some (h', c) \<and> length (shards c) = unat n"
    for cap'
    using NewLRUCache_spec [of h ncpu cap'] unfolding n_def by blast
  then obtain h' c where new: "NewLRUCache h ncpu cap = Some (h', c)"
    and len: "length (shards c) = unat n"
    by blast
  from new have r: "reachable (h', c)"
    by (rule reachable.new)
  from reachable_shape [OF r] have shape: "1024 \<le> length (shards c)"
    "Suc (unat (shardMask c)) = length (shards c)"
    by simp_all
  have small: "length (shards c) = 2 ^ 10" if "0 \<le> ncpu" "ncpu \<le> 256"
  proof -
    define w :: "32 word" where "w = word_of_int (ncpu * 4)"
    have n_w: "n = (if nextPowerOf2 w < 1024 then 1024 else nextPowerOf2 w)"
      by (simp only: n_def w_def)
    from that have b: "ncpu * 4 \<le> 1024" "0 \<le> ncpu * 4"
      by simp_all
    have "uint w = (ncpu * 4) mod 2 ^ LENGTH(32)"
      unfolding w_def by (rule uint_word_of_int)
    also from b have "\<dots> = ncpu * 4"
      by simp
    finally have u: "uint w = ncpu * 4" .
    have "n = 1024"
    proof (cases "nextPowerOf2 w < 1024")
      case True
      then show ?thesis
        by (simp add: n_w)
    next
      case False
      then have ge: "1024 \<le> nextPowerOf2 w"
        by (simp add: not_less)
      have "w \<noteq> 0"
      proof
        assume "w = 0"
        with ge have "(1024 :: 32 word) \<le> 1"
          by (simp add: nextPowerOf2_def)
        then show False
          by (simp add: word_le_nat_alt)
      qed
      with ge have "1024 \<le> w"
        by (simp add: nextPowerOf2_def)
      then have "1024 \<le> uint w"
        by (simp add: word_le_def)
      with u b have "uint w = uint (1024 :: 32 word)"
        by simp
      then have "w = 1024"
        by (simp only: word_uint_eq_iff)
      then show ?thesis
        by (simp add: n_w nextPowerOf2_def)
    qed
    then show ?thesis
      by (simp add: len)
  qed
  have indep: "\<forall>cap'. \<exists>st'. NewLRUCache h ncpu cap' = Some st' \<and>
                        length (shards (snd st')) = length (shards c)"
    using count len by force
  have fixed: "length (shards (snd st')) = length (shards c) \<and> shardMask (snd st') = shardMask c"
    if "run (h', c) xs = Some st'" for xs st'
  proof -
    from r have "cache_inv (h', c)"
      by (rule reachable_inv)
    with that have "layout (snd st') = layout c"
      using run_inv [of "(h', c)" xs st'] by simp
    then show ?thesis
      using layout_fields [of "snd st'" c] by simp
  qed
  from new shape small indep fixed show ?thesis
    by (intro exI [of _ "(h', c)"]) simp
qed

text \<open>
  With 8 CPUs the count is 1024 for capacity 1 and for capacity 1000000, and still 1024
  after two puts and a clear.
\<close>

theorem shard_count_by_design_witness:
  "length (shards (snd (the (NewLRUCache ([] :: nat heap) 8 1)))) = 1024 \<and>
   length (shards (snd (the (NewLRUCache ([] :: nat heap) 8 1000000)))) = 1024 \<and>
   length (shards (snd (the (run (the (NewLRUCache ([] :: nat heap) 8 1))
      [OpPut ''user:1'' (Some 1), OpPut ''user:892'' (Some 2), OpClear])))) = 1024"
proof -
  let ?xs = "[OpPut ''user:1'' (Some 1), OpPut ''user:892'' (Some 2), OpClear] :: nat op list"
  from shard_count_by_design [of "[] :: nat heap" 8 1] obtain st where
    new: "NewLRUCache ([] :: nat heap) 8 1 = Some st"
    and small: "length (shards (snd st)) = 2 ^ 10"
    and indep: "\<forall>cap'. \<exists>st'. NewLRUCache ([] :: nat heap) 8 cap' = Some st' \<and>
                        length (shards (snd st')) = length (shards (snd st))"
    and fixed: "\<forall>xs st'. run st xs = Some st' \<longrightarrow>
                     length (shards (snd st')) = length (shards (snd st))"
    by auto
  from new have "cache_inv st"
    by (auto intro: reachable_inv reachable.new)
  then obtain st' where run: "run st ?xs = Some st'"
    using run_total [of st ?xs] by auto
  with fixed have "length (shards (snd st')) = length (shards (snd st))"
    by blast
  moreover from indep obtain st2 where "NewLRUCache ([] :: nat heap) 8 1000000 = Some st2"
    "length (shards (snd st2)) = length (shards (snd st))"
    by blast
  ultimately show ?thesis
    using new small run by simp
qed

text \<open>
  C9 as claimed fails: with 8 CPUs and capacity 1 the shard count is 1024, which is
  neither \<open>max(16, nextPowerOfTwo(32)) = 32\<close> nor at most the capacity.
\<close>

theorem shard_count_counterexample:
  "NewLRUCache ([] :: nat heap) 8 1 \<noteq> None \<and>
   length (shards (snd (the (NewLRUCache ([] :: nat heap) 8 1)))) \<noteq> spec_shardCount 8 \<and>
   \<not> int (length (shards (snd (the (NewLRUCache ([] :: nat heap) 8 1))))) \<le> 1"
proof -
  obtain h c where "NewLRUCache ([] :: nat heap) 8 1 = Some (h, c)" "length (shards c) = 1024"
    using new8 [of 1] by blast
  then show ?thesis
    by (simp add: spec_shardCount_8)
qed

text \<open>
  C10.  In every reachable state and for every key, the index that \<open>getShard\<close> computes
  (the FNV-1a hash masked with \<open>shardMask\<close>) is below the length of the shard slice; the mask
  is the shard count minus one; and the selected slot holds a shard.  So the shard selection
  of \<open>Get\<close> and \<open>Put\<close> never indexes out of range.
\<close>

theorem shard_index_in_bounds:
  assumes "reachable st"
  shows "shardIndex (snd st) k < length (shards (snd st)) \<and>
         Suc (unat (shardMask (snd st))) = length (shards (snd st)) \<and>
         (\<exists>s. getShard (snd st) k = Some (Some s))"
proof -
  obtain h c where st: "st = (h, c)"
    by (cases st)
  from assms have "cache_inv (h, c)"
    unfolding st by (rule reachable_inv)
  then obtain s where "getShard c k = Some (Some s)" and "shardIndex c k < length (shards c)"
    by (auto elim: getShard_inv intro: shardIndex_bound)
  with reachable_shape [OF assms] st show ?thesis
    by simp
qed

theorem shard_index_in_bounds_witness:
  "shardIndex (snd (the (NewLRUCache ([] :: nat heap) 8 1000000))) ''user:1''
     < length (shards (snd (the (NewLRUCache ([] :: nat heap) 8 1000000))))"
proof -
  obtain st where st: "NewLRUCache ([] :: nat heap) 8 1000000 = Some st"
    using new8 [of 1000000] by blast
  then have "reachable st"
    by (rule reachable.new)
  from shard_index_in_bounds [OF this, of "''user:1''"] st show ?thesis
    by simp
qed

end
